theory Spec2Isabelle
  imports Main
begin

section \<open>Text\<close>

text \<open>
  The script reads each file as text (\<^verbatim>\<open>f.read()\<close>) and works on that text. Text is
  modelled as \<^typ>\<open>string\<close>: a list of characters with codes 0 to 255. On these
  characters the case folding that \<^verbatim>\<open>re.IGNORECASE\<close> applies to the letters of the
  pattern is the folding of the 26 ASCII letters, written out as a table.
\<close>

definition lower :: "char \<Rightarrow> char" where
  "lower c =
     (case map_of (zip ''ABCDEFGHIJKLMNOPQRSTUVWXYZ'' ''abcdefghijklmnopqrstuvwxyz'') c of
        Some l \<Rightarrow> l
      | None \<Rightarrow> c)"

text \<open>\<^verbatim>\<open>s.startswith(p)\<close>, \<^verbatim>\<open>s.endswith(p)\<close> and \<^verbatim>\<open>p in s\<close> of Python's \<^verbatim>\<open>str\<close>.\<close>

fun startswith :: "string \<Rightarrow> string \<Rightarrow> bool" where
  "startswith s [] = True"
| "startswith [] (p # ps) = False"
| "startswith (x # s) (p # ps) = (x = p \<and> startswith s ps)"

definition endswith :: "string \<Rightarrow> string \<Rightarrow> bool" where
  "endswith s p = (length p \<le> length s \<and> drop (length s - length p) s = p)"

fun contains :: "string \<Rightarrow> string \<Rightarrow> bool" where
  "contains p [] = startswith [] p"
| "contains p (x # s) = (startswith (x # s) p \<or> contains p s)"

section \<open>The regular expression engine\<close>

text \<open>
  The part of Python's \<^verbatim>\<open>re\<close> that the pattern of the script uses, compiled with
  \<^verbatim>\<open>re.IGNORECASE\<close>: a pattern is a sequence of nodes; a node consumes one
  character of a set, a greedy repetition of one character of a set, or one of several
  alternative literals. A character is tested after case folding.
\<close>

datatype cset = Literal char | In "char list" | Not_In "char list"

fun accepts :: "cset \<Rightarrow> char \<Rightarrow> bool" where
  "accepts (Literal c) x = (lower x = lower c)"
| "accepts (In cs) x = (lower x \<in> set (map lower cs))"
| "accepts (Not_In cs) x = (lower x \<notin> set (map lower cs))"

datatype node = One cset | Max_Repeat nat cset | Branch "cset list list"

text \<open>A fixed sequence of one-character tests (an alternative of a branch).\<close>

fun match_lit :: "cset list \<Rightarrow> string \<Rightarrow> (string \<times> string) option" where
  "match_lit [] s = Some ([], s)"
| "match_lit (c # cs) [] = None"
| "match_lit (c # cs) (x # s) =
     (if accepts c x
      then (case match_lit cs s of None \<Rightarrow> None | Some (p, r) \<Rightarrow> Some (x # p, r))
      else None)"

text \<open>
  Backtracking. A greedy repetition first takes as many characters as it can and gives
  them back one at a time until the rest of the pattern matches: \<open>first_down f mn n\<close> is
  the first success of \<open>f\<close> among the counts \<open>n, n - 1, \<dots>, mn\<close>. A branch tries its
  alternatives from left to right: \<open>first_alt\<close>.
\<close>

primrec first_down :: "(nat \<Rightarrow> 'a option) \<Rightarrow> nat \<Rightarrow> nat \<Rightarrow> 'a option" where
  "first_down f mn 0 = (if 0 < mn then None else f 0)"
| "first_down f mn (Suc n) =
     (if Suc n < mn then None
      else (case f (Suc n) of Some r \<Rightarrow> Some r | None \<Rightarrow> first_down f mn n))"

primrec first_alt :: "('a \<Rightarrow> 'b option) \<Rightarrow> 'a list \<Rightarrow> 'b option" where
  "first_alt f [] = None"
| "first_alt f (a # as) = (case f a of Some r \<Rightarrow> Some r | None \<Rightarrow> first_alt f as)"

definition push ::
  "string \<Rightarrow> (string list \<times> string) option \<Rightarrow> (string list \<times> string) option" where
  "push p res = (case res of None \<Rightarrow> None | Some (ps, r) \<Rightarrow> Some (p # ps, r))"

text \<open>
  \<open>sre_match ns s\<close> matches the nodes \<open>ns\<close> at the start of \<open>s\<close>. The result is the text
  each node consumed, in order, and the text after the match.
\<close>

fun sre_match :: "node list \<Rightarrow> string \<Rightarrow> (string list \<times> string) option" where
  "sre_match [] s = Some ([], s)"
| "sre_match (One c # ns) s =
     (case s of
        [] \<Rightarrow> None
      | x # r \<Rightarrow> if accepts c x then push [x] (sre_match ns r) else None)"
| "sre_match (Max_Repeat mn c # ns) s =
     first_down (\<lambda>n. push (take n s) (sre_match ns (drop n s))) mn
       (length (takeWhile (accepts c) s))"
| "sre_match (Branch alts # ns) s =
     first_alt
       (\<lambda>alt. case match_lit alt s of
                 None \<Rightarrow> None
               | Some (p, r) \<Rightarrow> push p (sre_match ns r))
       alts"

text \<open>
  A pattern is the list of its capture groups, each a sequence of nodes. The groups of
  a match are the texts its nodes consumed, joined group by group.
\<close>

fun split_groups :: "node list list \<Rightarrow> string list \<Rightarrow> string list" where
  "split_groups [] ps = []"
| "split_groups (g # gs) ps =
     concat (take (length g) ps) # split_groups gs (drop (length g) ps)"

definition pattern_match :: "node list list \<Rightarrow> string \<Rightarrow> (string list \<times> string) option" where
  "pattern_match pat s =
     (case sre_match (concat pat) s of
        None \<Rightarrow> None
      | Some (ps, r) \<Rightarrow> Some (split_groups pat ps, r))"

text \<open>\<^verbatim>\<open>match.group(n)\<close> for \<open>n \<ge> 1\<close>.\<close>

definition group :: "string list \<Rightarrow> nat \<Rightarrow> string" where
  "group m n = m ! (n - 1)"

section \<open>The pattern of the script\<close>

text \<open>
  \<^verbatim>\<open>(<img\s+[^>]*src=["\'])([^"\']+\.)(jpg|png)(["\'][^>]*>)\<close>

  \<^verbatim>\<open>\s\<close> is the white space of a \<^verbatim>\<open>str\<close> pattern among the characters 0 to 255.
\<close>

definition lit :: "string \<Rightarrow> node list" where
  "lit s = map (\<lambda>c. One (Literal c)) s"

definition whitespace :: "char list" where
  "whitespace =
     [CHR 0x09, CHR 0x0A, CHR 0x0B, CHR 0x0C, CHR 0x0D, CHR 0x1C, CHR 0x1D, CHR 0x1E,
      CHR 0x1F, CHR 0x20, CHR 0x85, CHR 0xA0]"

definition quotes :: "char list" where
  "quotes = [CHR 0x22, CHR 0x27]"

definition img_tag_pattern :: "node list list" where
  "img_tag_pattern =
     [lit ''<img'' @ [Max_Repeat 1 (In whitespace), Max_Repeat 0 (Not_In ''>'')] @
        lit ''src='' @ [One (In quotes)],
      [Max_Repeat 1 (Not_In quotes), One (Literal (CHR ''.''))],
      [Branch [map Literal ''jpg'', map Literal ''png'']],
      [One (In quotes), Max_Repeat 0 (Not_In ''>''), One (Literal (CHR ''>''))]]"

definition replace_ext :: "string list \<Rightarrow> string" where
  "replace_ext m =
     (let prefix = group m 1;
          path = group m 2;
          ext = group m 3;
          suffix = group m 4;
          new_ext = ''webp''
      in prefix @ path @ new_ext @ suffix)"

section \<open>Properties of the engine\<close>

text \<open>
  What a successful match looks like: the consumed texts, followed by the rest, are the
  input, and each node consumed a text it accepts (\<open>node_ok\<close>).
\<close>

lemma push_Some: "push p res = Some (ps, r) \<longleftrightarrow> (\<exists>qs. ps = p # qs \<and> res = Some (qs, r))"
  by (auto simp: push_def split: option.splits)

lemma push_None: "push p res = None \<longleftrightarrow> res = None"
  by (auto simp: push_def split: option.splits)

lemma first_down_Some:
  "first_down f mn n = Some r \<Longrightarrow> \<exists>k. mn \<le> k \<and> k \<le> n \<and> f k = Some r \<and> (\<forall>j. k < j \<and> j \<le> n \<longrightarrow> f j = None)"
proof (induction n)
  case 0
  then show ?case by (auto split: if_splits)
next
  case (Suc n)
  show ?case
  proof (cases "f (Suc n)")
    case None
    with Suc.prems have "first_down f mn n = Some r" by (auto split: if_splits)
    from Suc.IH[OF this] obtain k where k: "mn \<le> k" "k \<le> n" "f k = Some r"
      "\<forall>j. k < j \<and> j \<le> n \<longrightarrow> f j = None" by blast
    have "\<forall>j. k < j \<and> j \<le> Suc n \<longrightarrow> f j = None"
      using k(4) None by (auto simp: le_Suc_eq)
    with k show ?thesis by (intro exI[of _ k]) auto
  next
    case (Some a)
    with Suc.prems show ?thesis by (intro exI[of _ "Suc n"]) (auto split: if_splits)
  qed
qed

lemma first_down_None:
  "first_down f mn n = None \<longleftrightarrow> (\<forall>k. mn \<le> k \<and> k \<le> n \<longrightarrow> f k = None)"
proof (induction n)
  case 0
  then show ?case by auto
next
  case (Suc n)
  show ?case
  proof (cases "Suc n < mn")
    case True
    then show ?thesis by auto
  next
    case False
    have "(\<forall>k. mn \<le> k \<and> k \<le> Suc n \<longrightarrow> f k = None) \<longleftrightarrow>
          f (Suc n) = None \<and> (\<forall>k. mn \<le> k \<and> k \<le> n \<longrightarrow> f k = None)"
      using False by (metis le_Suc_eq not_less)
    with Suc False show ?thesis by (auto split: option.splits)
  qed
qed

lemma first_down_eqI:
  "mn \<le> k \<Longrightarrow> k \<le> n \<Longrightarrow> f k = Some r \<Longrightarrow> (\<And>j. k < j \<Longrightarrow> j \<le> n \<Longrightarrow> f j = None)
   \<Longrightarrow> first_down f mn n = Some r"
proof (induction n)
  case 0
  then show ?case by auto
next
  case (Suc n)
  show ?case
  proof (cases "k = Suc n")
    case True
    with Suc.prems show ?thesis by auto
  next
    case False
    with Suc.prems have "k \<le> n" "f (Suc n) = None" by auto
    with Suc show ?thesis by auto
  qed
qed

lemma first_alt_Some:
  "first_alt f as = Some r \<Longrightarrow> \<exists>a \<in> set as. f a = Some r"
  by (induction as) (auto split: option.splits)

lemma first_alt_None: "first_alt f as = None \<longleftrightarrow> (\<forall>a \<in> set as. f a = None)"
  by (induction as) (auto split: option.splits)

lemma match_lit_Some:
  "match_lit cs s = Some (p, r) \<Longrightarrow> s = p @ r \<and> list_all2 accepts cs p"
  by (induction cs s arbitrary: p r rule: match_lit.induct) (auto split: if_splits option.splits)

lemma match_lit_None:
  "match_lit cs s = None \<longleftrightarrow> \<not> (\<exists>p r. s = p @ r \<and> list_all2 accepts cs p)"
proof (induction cs s rule: match_lit.induct)
  case (1 s)
  then show ?case by simp
next
  case (2 c cs)
  then show ?case by (auto simp: list_all2_Cons1)
next
  case (3 c cs x s)
  have "(\<exists>p r. x # s = p @ r \<and> list_all2 accepts (c # cs) p) \<longleftrightarrow>
        accepts c x \<and> (\<exists>p r. s = p @ r \<and> list_all2 accepts cs p)"
    by (auto simp: list_all2_Cons1 Cons_eq_append_conv)
  with 3 show ?case by (auto split: option.splits)
qed

fun node_ok :: "node \<Rightarrow> string \<Rightarrow> bool" where
  "node_ok (One c) p = (\<exists>x. p = [x] \<and> accepts c x)"
| "node_ok (Max_Repeat mn c) p = (mn \<le> length p \<and> (\<forall>x \<in> set p. accepts c x))"
| "node_ok (Branch alts) p = (\<exists>alt \<in> set alts. list_all2 accepts alt p)"

lemma takeWhile_bound:
  "k \<le> length (takeWhile P s) \<Longrightarrow> \<forall>x \<in> set (take k s). P x"
  by (metis in_set_takeD set_takeWhileD takeWhile_eq_take take_take min.absorb1)

lemma sre_match_sound:
  "sre_match ns s = Some (ps, r) \<Longrightarrow> s = concat ps @ r \<and> list_all2 node_ok ns ps"
proof (induction ns s arbitrary: ps r rule: sre_match.induct)
  case (1 s)
  then show ?case by simp
next
  case (2 c ns s)
  then show ?case by (auto simp: push_Some split: list.splits if_splits)
next
  case (3 mn c ns s)
  from first_down_Some[OF "3.prems"[simplified]] obtain k where
    k: "mn \<le> k" "k \<le> length (takeWhile (accepts c) s)"
       "push (take k s) (sre_match ns (drop k s)) = Some (ps, r)" by blast
  then obtain qs where qs: "ps = take k s # qs" "sre_match ns (drop k s) = Some (qs, r)"
    by (auto simp: push_Some)
  from "3.IH"[OF qs(2)] have ih: "drop k s = concat qs @ r" "list_all2 node_ok ns qs" by auto
  have "k \<le> length s" using k(2) length_takeWhile_le[of "accepts c" s] by linarith
  moreover have "\<forall>x \<in> set (take k s). accepts c x" using takeWhile_bound[OF k(2)] .
  moreover have "s = take k s @ drop k s" by simp
  ultimately show ?case using ih qs k(1) by (auto simp del: append_take_drop_id)
next
  case (4 alts ns s)
  from first_alt_Some[OF "4.prems"[simplified]] obtain alt where
    alt: "alt \<in> set alts"
      "(case match_lit alt s of None \<Rightarrow> None | Some (p, r) \<Rightarrow> push p (sre_match ns r)) = Some (ps, r)"
    by blast
  then obtain p r' qs where p: "match_lit alt s = Some (p, r')" "ps = p # qs" "sre_match ns r' = Some (qs, r)"
    by (auto simp: push_Some split: option.splits)
  from "4.IH"[OF p(1) refl p(3)] match_lit_Some[OF p(1)] alt(1) p(2)
  show ?case by auto
qed

lemma sre_match_One_shorter:
  assumes "sre_match (One c # ns) s = Some (ps, r)"
  shows "length r < length s"
proof -
  from sre_match_sound[OF assms] have "s = concat ps @ r" "list_all2 node_ok (One c # ns) ps"
    by auto
  then show ?thesis by (auto simp: list_all2_Cons1)
qed

lemma img_tag_pattern_shorter:
  assumes "pattern_match img_tag_pattern s = Some (m, r)"
  shows "length r < length s"
proof -
  have "\<exists>ns. concat img_tag_pattern = One (Literal (CHR ''<'')) # ns"
    by (simp add: img_tag_pattern_def lit_def)
  then obtain ns where ns: "concat img_tag_pattern = One (Literal (CHR ''<'')) # ns" ..
  from assms obtain ps where "sre_match (concat img_tag_pattern) s = Some (ps, r)"
    by (auto simp: pattern_match_def split: option.splits)
  then show ?thesis unfolding ns by (rule sre_match_One_shorter)
qed

section \<open>Substitution\<close>

text \<open>
  \<^verbatim>\<open>img_tag_pattern.sub(repl, content)\<close>: the text is scanned from left to right. Where
  the pattern matches, the match is replaced by \<open>repl\<close> of its groups and the scan goes on
  after the match; where it does not, the character is copied. The pattern never matches
  the empty text, so Python's rule for empty matches is never applied.
\<close>

function img_tag_pattern_sub :: "(string list \<Rightarrow> string) \<Rightarrow> string \<Rightarrow> string" where
  "img_tag_pattern_sub repl s =
     (case pattern_match img_tag_pattern s of
        Some (m, r) \<Rightarrow> repl m @ img_tag_pattern_sub repl r
      | None \<Rightarrow> (case s of [] \<Rightarrow> [] | x # xs \<Rightarrow> x # img_tag_pattern_sub repl xs))"
  by pat_completeness auto
termination
  by (relation "measure (\<lambda>(repl, s). length s)") (auto dest: img_tag_pattern_shorter)

declare img_tag_pattern_sub.simps [simp del]

text \<open>\<^verbatim>\<open>new_content = img_tag_pattern.sub(replace_ext, content)\<close>\<close>

definition new_content :: "string \<Rightarrow> string" where
  "new_content content = img_tag_pattern_sub replace_ext content"

section \<open>The file tree and the run\<close>

text \<open>
  A directory holds named entries, files with their text and directories.
  \<^verbatim>\<open>os.walk(top)\<close> lists the directories top-down as triples of the directory's path, the
  names of its directories and its files. A file is listed with the text that
  \<^verbatim>\<open>open(filepath).read()\<close> returns for it. What the run does to the outside is
  recorded as a list of events, in order.
\<close>

datatype entry = File string | Dir "(string \<times> entry) list"

definition path_join :: "string \<Rightarrow> string \<Rightarrow> string" where
  "path_join a b =
     (if startswith b ''/'' then b
      else if a = [] \<or> endswith a ''/'' then a @ b
      else a @ ''/'' @ b)"

fun is_dir :: "string \<times> entry \<Rightarrow> bool" where
  "is_dir (name, Dir es) = True"
| "is_dir (name, File c) = False"

fun files_of :: "(string \<times> entry) list \<Rightarrow> (string \<times> string) list" where
  "files_of [] = []"
| "files_of ((name, File c) # es) = (name, c) # files_of es"
| "files_of ((name, Dir ds) # es) = files_of es"

fun os_walk :: "string \<Rightarrow> entry \<Rightarrow> (string \<times> string list \<times> (string \<times> string) list) list" where
  "os_walk dirpath (File c) = []"
| "os_walk dirpath (Dir es) =
     (dirpath, map fst (filter is_dir es), files_of es) #
     concat (map (\<lambda>(name, e). os_walk (path_join dirpath name) e) (filter is_dir es))"

datatype event = Open_Read string | Print string | Open_Write string string

definition process_file :: "string \<Rightarrow> string \<Rightarrow> event list" where
  "process_file filepath content =
     Open_Read filepath #
     (if new_content content \<noteq> content
      then [Print (''Updating '' @ filepath), Open_Write filepath (new_content content)]
      else [])"

definition visit_file :: "string \<Rightarrow> string \<times> string \<Rightarrow> event list" where
  "visit_file dirpath f =
     (if endswith (fst f) ''.html'' then process_file (path_join dirpath (fst f)) (snd f)
      else [])"

definition visit_dir :: "string \<times> string list \<times> (string \<times> string) list \<Rightarrow> event list" where
  "visit_dir w =
     (case w of (dirpath, dirnames, files) \<Rightarrow>
        if contains ''node_modules'' dirpath then []
        else concat (map (visit_file dirpath) files))"

definition update_html_files :: "string \<Rightarrow> entry \<Rightarrow> event list" where
  "update_html_files root_dir tree = concat (map visit_dir (os_walk root_dir tree))"

text \<open>The segments of a path: \<^verbatim>\<open>path.split("/")\<close>.\<close>

fun path_segments :: "string \<Rightarrow> string list" where
  "path_segments [] = [[]]"
| "path_segments (c # s) =
     (if c = CHR ''/'' then [] # path_segments s
      else (case path_segments s of [] \<Rightarrow> [[c]] | seg # segs \<Rightarrow> (c # seg) # segs))"

text \<open>
  The names a directory listing returns are not empty and hold no \<^verbatim>\<open>/\<close>.
\<close>

definition valid_name :: "string \<Rightarrow> bool" where
  "valid_name n = (n \<noteq> [] \<and> CHR ''/'' \<notin> set n)"

fun valid_tree :: "entry \<Rightarrow> bool" where
  "valid_tree (File c) = True"
| "valid_tree (Dir es) = list_all (\<lambda>(n, e). valid_name n \<and> valid_tree e) es"



text \<open>
  The candidate files of a run, with their paths and texts, in the order in which the
  loop reaches them: the files of the directories that are not skipped whose names end
  with \<^verbatim>\<open>.html\<close>.
\<close>

definition candidates :: "string \<Rightarrow> entry \<Rightarrow> (string \<times> string) list" where
  "candidates root_dir tree =
     concat (map (\<lambda>(dirpath, dirnames, files).
                    if contains ''node_modules'' dirpath then []
                    else map (\<lambda>(filename, content). (path_join dirpath filename, content))
                           (filter (\<lambda>(filename, content). endswith filename ''.html'') files))
                 (os_walk root_dir tree))"

section \<open>Claims about the run\<close>

lemma startswith_iff: "startswith s p \<longleftrightarrow> (\<exists>v. s = p @ v)"
  by (induction s p rule: startswith.induct) auto

lemma contains_iff: "contains p s \<longleftrightarrow> (\<exists>u v. s = u @ p @ v)"
proof (induction s)
  case Nil
  then show ?case by (auto simp: startswith_iff)
next
  case (Cons x s)
  show ?case
  proof
    assume "contains p (x # s)"
    then consider "startswith (x # s) p" | "contains p s" by auto
    then show "\<exists>u v. x # s = u @ p @ v"
    proof cases
      case 1
      then obtain v where "x # s = p @ v" by (auto simp: startswith_iff)
      then have "x # s = [] @ p @ v" by simp
      then show ?thesis by blast
    next
      case 2
      then obtain u v where "s = u @ p @ v" using Cons.IH by auto
      then have "x # s = (x # u) @ p @ v" by simp
      then show ?thesis by blast
    qed
  next
    assume "\<exists>u v. x # s = u @ p @ v"
    then obtain u v where uv: "x # s = u @ p @ v" by auto
    show "contains p (x # s)"
    proof (cases u)
      case Nil
      with uv have "startswith (x # s) p" by (auto simp: startswith_iff)
      then show ?thesis by simp
    next
      case (Cons y u')
      with uv have "s = u' @ p @ v" by simp
      then show ?thesis using Cons.IH by auto
    qed
  qed
qed

lemma path_segments_nonempty: "path_segments s \<noteq> []"
  by (induction s) (auto split: list.splits)

lemma path_segments_sub: "x \<in> set (path_segments s) \<Longrightarrow> \<exists>u v. s = u @ x @ v"
proof (induction s arbitrary: x)
  case Nil
  then show ?case by auto
next
  case (Cons c s)
  show ?case
  proof (cases "c = CHR ''/''")
    case True
    with Cons.prems consider "x = []" | "x \<in> set (path_segments s)" by auto
    then show ?thesis
    proof cases
      case 1
      then have "c # s = [] @ x @ (c # s)" by simp
      then show ?thesis by blast
    next
      case 2
      then obtain u v where "s = u @ x @ v" using Cons.IH by blast
      then have "c # s = (c # u) @ x @ v" by simp
      then show ?thesis by blast
    qed
  next
    case False
    obtain seg segs where ps: "path_segments s = seg # segs"
      using path_segments_nonempty[of s] by (cases "path_segments s") auto
    with False Cons.prems consider "x = c # seg" | "x \<in> set segs" by auto
    then show ?thesis
    proof cases
      case 1
      have "seg \<in> set (path_segments s)" using ps by simp
      have "\<exists>v. s = seg @ v" using ps
      proof (induction s arbitrary: seg segs)
        case Nil
        then show ?case by auto
      next
        case (Cons d s)
        then show ?case
          using path_segments_nonempty[of s]
          by (cases "path_segments s") (auto split: if_splits)
      qed
      then obtain v where "s = seg @ v" ..
      then have "c # s = [] @ x @ v" using 1 by simp
      then show ?thesis by blast
    next
      case 2
      then have "x \<in> set (path_segments s)" using ps by simp
      then obtain u v where "s = u @ x @ v" using Cons.IH by blast
      then have "c # s = (c # u) @ x @ v" by simp
      then show ?thesis by blast
    qed
  qed
qed

lemma segment_contains: "x \<in> set (path_segments s) \<Longrightarrow> contains x s"
  using path_segments_sub contains_iff by blast

lemma path_join_extends: "valid_name n \<Longrightarrow> \<exists>v. path_join d n = d @ v"
  by (cases n) (auto simp: path_join_def valid_name_def)

lemma os_walk_extends:
  "w \<in> set (os_walk d tree) \<Longrightarrow> valid_tree tree \<Longrightarrow> \<exists>v. fst w = d @ v"
proof (induction d tree arbitrary: w rule: os_walk.induct)
  case (1 dirpath c)
  then show ?case by simp
next
  case (2 dirpath es)
  from "2.prems"(1) consider "fst w = dirpath"
    | n e where "(n, e) \<in> set es" "is_dir (n, e)" "w \<in> set (os_walk (path_join dirpath n) e)"
    by auto
  then show ?case
  proof cases
    case 1
    then show ?thesis by simp
  next
    case 2
    from "2.prems"(2) 2(1) have v: "valid_name n" "valid_tree e"
      by (auto simp: list_all_iff)
    have "(n, e) \<in> set (filter is_dir es)" using 2 by simp
    from "2.IH"[OF this refl 2(3) v(2)] obtain v1 where "fst w = path_join dirpath n @ v1" ..
    moreover from path_join_extends[OF v(1)] obtain v2 where "path_join dirpath n = dirpath @ v2" ..
    ultimately show ?thesis by simp
  qed
qed

lemma contains_extends: "contains p d \<Longrightarrow> contains p (d @ v)"
  unfolding contains_iff by (metis append.assoc)

text \<open>
  Claim C3. A directory whose path has a segment equal to \<^verbatim>\<open>node_modules\<close> is skipped:
  the loop body does nothing for it (no file of it is opened, written or announced,
  whatever its name and text), and the same holds for every directory that the walk
  lists below it, so the whole subtree is skipped.
\<close>

theorem node_modules_skipped:
  assumes "''node_modules'' \<in> set (path_segments dirpath)"
  shows "visit_dir (dirpath, dirnames, files) = [] \<and>
         (valid_tree tree \<longrightarrow> (\<forall>w \<in> set (os_walk dirpath tree). visit_dir w = []))"
proof -
  have c: "contains ''node_modules'' dirpath" using assms by (rule segment_contains)
  then have "visit_dir (dirpath, dirnames, files) = []" by (simp add: visit_dir_def)
  moreover have "visit_dir w = []" if "valid_tree tree" "w \<in> set (os_walk dirpath tree)" for w
  proof -
    from os_walk_extends[OF that(2) that(1)] obtain v where "fst w = dirpath @ v" ..
    then have "contains ''node_modules'' (fst w)" using c by (simp add: contains_extends)
    then show ?thesis by (cases w) (simp add: visit_dir_def)
  qed
  ultimately show ?thesis by blast
qed

theorem node_modules_skipped_witness:
  \<open>''node_modules'' \<in> set (path_segments ''./node_modules/pkg'') \<and>
   valid_tree (Dir [(''lib'', Dir [(''e.html'', File ''<img src="y.png">'')])]) \<and>
   visit_dir (''./node_modules/pkg'', [''lib''], [(''d.html'', ''<img src="x.jpg">'')]) = [] \<and>
   map visit_dir
     (os_walk ''./node_modules/pkg'' (Dir [(''lib'', Dir [(''e.html'', File ''<img src="y.png">'')])])) =
     [[], []] \<and>
   visit_dir (''./pkg'', [''lib''], [(''d.html'', ''<img src="x.jpg">'')]) =
     [Open_Read ''./pkg/d.html'', Print ''Updating ./pkg/d.html'',
      Open_Write ''./pkg/d.html'' ''<img src="x.webp">'']\<close>
proof -
  have h: "''node_modules'' \<in> set (path_segments ''./node_modules/pkg'')"
    by code_simp
  have v: \<open>valid_tree (Dir [(''lib'', Dir [(''e.html'', File ''<img src="y.png">'')])])\<close>
    by (simp add: valid_name_def)
  have w: \<open>os_walk ''./node_modules/pkg'' (Dir [(''lib'', Dir [(''e.html'', File ''<img src="y.png">'')])]) =
      [(''./node_modules/pkg'', [''lib''], []),
       (''./node_modules/pkg/lib'', [], [(''e.html'', ''<img src="y.png">'')])]\<close>
    by code_simp
  have o: \<open>visit_dir (''./pkg'', [''lib''], [(''d.html'', ''<img src="x.jpg">'')]) =
     [Open_Read ''./pkg/d.html'', Print ''Updating ./pkg/d.html'',
      Open_Write ''./pkg/d.html'' ''<img src="x.webp">'']\<close>
    by code_simp
  from node_modules_skipped[OF h, of "[''lib'']" \<open>[(''d.html'', ''<img src="x.jpg">'')]\<close>
      \<open>Dir [(''lib'', Dir [(''e.html'', File ''<img src="y.png">'')])]\<close>] v
  show ?thesis unfolding w using h o by simp
qed

lemma endswith_iff: "endswith s p \<longleftrightarrow> (\<exists>stem. s = stem @ p)"
proof
  assume "endswith s p"
  then have "s = take (length s - length p) s @ p"
    by (metis append_take_drop_id endswith_def)
  then show "\<exists>stem. s = stem @ p" ..
next
  assume "\<exists>stem. s = stem @ p"
  then show "endswith s p" by (auto simp: endswith_def)
qed










text \<open>The end-to-end scenario of the specification, evaluated.\<close>

lemma end_to_end_scenario:
  \<open>candidates ''.'' (Dir [(''a.html'', File ''<img src="x.jpg">''),
                         (''sub'', Dir [(''b.html'', File ''<p>no images</p>'')])]) =
     [(''./a.html'', ''<img src="x.jpg">''), (''./sub/b.html'', ''<p>no images</p>'')] \<and>
   update_html_files ''.'' (Dir [(''a.html'', File ''<img src="x.jpg">''),
                         (''sub'', Dir [(''b.html'', File ''<p>no images</p>'')])]) =
     [Open_Read ''./a.html'', Print ''Updating ./a.html'',
      Open_Write ''./a.html'' ''<img src="x.webp">'', Open_Read ''./sub/b.html'']\<close>
  by code_simp

lemma path_join_name:
  assumes "valid_name n"
  shows "takeWhile (\<lambda>c. c \<noteq> CHR ''/'') (rev (path_join d n)) = rev n"
proof -
  from assms have n: "n \<noteq> []" "CHR ''/'' \<notin> set n" by (simp_all add: valid_name_def)
  then have ns: "\<not> startswith n ''/''" by (cases n) auto
  have all: "\<And>x. x \<in> set (rev n) \<Longrightarrow> x \<noteq> CHR ''/''" using n(2) by auto
  have tw: "takeWhile (\<lambda>c. c \<noteq> CHR ''/'') (rev n @ CHR ''/'' # ys) = rev n" for ys
  proof -
    have "takeWhile (\<lambda>c. c \<noteq> CHR ''/'') (rev n @ CHR ''/'' # ys) =
          rev n @ takeWhile (\<lambda>c. c \<noteq> CHR ''/'') (CHR ''/'' # ys)"
      by (rule takeWhile_append2) (rule all)
    then show ?thesis by simp
  qed
  consider "d = []" | "endswith d ''/''" | "d \<noteq> []" "\<not> endswith d ''/''" by blast
  then show ?thesis
  proof cases
    case 1
    then have "path_join d n = n" using ns by (simp add: path_join_def)
    then show ?thesis using all by (simp add: takeWhile_eq_all_conv)
  next
    case 2
    then obtain d0 where d: "d = d0 @ ''/''" unfolding endswith_iff ..
    have "path_join d n = d @ n" using ns 2 by (simp add: path_join_def)
    then have "rev (path_join d n) = rev n @ CHR ''/'' # rev d0" unfolding d by simp
    then show ?thesis by (simp only: tw)
  next
    case 3
    then have "path_join d n = d @ ''/'' @ n" using ns by (simp add: path_join_def)
    then have "rev (path_join d n) = rev n @ CHR ''/'' # rev d" by simp
    then show ?thesis by (simp only: tw)
  qed
qed

lemma path_join_same_name:
  assumes "valid_name n" "valid_name n'" "path_join d n = path_join d' n'"
  shows "n = n'"
proof -
  have "rev n = takeWhile (\<lambda>c. c \<noteq> CHR ''/'') (rev (path_join d n))"
    using path_join_name[OF assms(1)] by simp
  also have "\<dots> = rev n'" unfolding assms(3) by (rule path_join_name[OF assms(2)])
  finally show ?thesis by simp
qed

lemma files_of_mem: "(n, c) \<in> set (files_of es) \<Longrightarrow> (n, File c) \<in> set es"
  by (induction es rule: files_of.induct) auto

lemma os_walk_valid_files:
  "w \<in> set (os_walk d tree) \<Longrightarrow> valid_tree tree \<Longrightarrow> (n, c) \<in> set (snd (snd w)) \<Longrightarrow>
   valid_name n"
proof (induction d tree arbitrary: w rule: os_walk.induct)
  case (1 dirpath c)
  then show ?case by simp
next
  case (2 dirpath es)
  from "2.prems"(1) consider "w = (dirpath, map fst (filter is_dir es), files_of es)"
    | m e where "(m, e) \<in> set es" "is_dir (m, e)" "w \<in> set (os_walk (path_join dirpath m) e)"
    by auto
  then show ?case
  proof cases
    case 1
    with "2.prems"(3) have "(n, File c) \<in> set es" by (simp add: files_of_mem)
    with "2.prems"(2) show ?thesis by (auto simp: list_all_iff)
  next
    case 2
    from "2.prems"(2) 2(1) have v: "valid_tree e" by (auto simp: list_all_iff)
    have "(m, e) \<in> set (filter is_dir es)" using 2 by simp
    from "2.IH"[OF this refl 2(3) v "2.prems"(3)] show ?thesis .
  qed
qed

lemma read_in_visit_file:
  "Open_Read fp \<in> set (visit_file d (n, c)) \<longleftrightarrow> endswith n ''.html'' \<and> fp = path_join d n"
  by (auto simp: visit_file_def process_file_def)

lemma event_in_visit_dir:
  "e \<in> set (visit_dir (d, dns, fs)) \<longleftrightarrow>
   \<not> contains ''node_modules'' d \<and> (\<exists>f \<in> set fs. e \<in> set (visit_file d f))"
  by (auto simp: visit_dir_def)

lemma event_in_run:
  "e \<in> set (update_html_files root_dir tree) \<longleftrightarrow>
   (\<exists>w \<in> set (os_walk root_dir tree). e \<in> set (visit_dir w))"
  by (auto simp: update_html_files_def)

lemma read_in_run:
  assumes "valid_tree tree" "(dirpath, dirnames, files) \<in> set (os_walk root_dir tree)"
    "\<not> contains ''node_modules'' dirpath" "(filename, content) \<in> set files"
  shows "Open_Read (path_join dirpath filename) \<in> set (update_html_files root_dir tree) \<longleftrightarrow>
         endswith filename ''.html''"
proof
  assume "Open_Read (path_join dirpath filename) \<in> set (update_html_files root_dir tree)"
  then obtain w where w: "w \<in> set (os_walk root_dir tree)"
    and e: "Open_Read (path_join dirpath filename) \<in> set (visit_dir w)"
    unfolding event_in_run by blast
  obtain d dns fs where wd: "w = (d, dns, fs)" by (cases w)
  from e obtain f where f: "f \<in> set fs"
    and r: "Open_Read (path_join dirpath filename) \<in> set (visit_file d f)"
    unfolding wd event_in_visit_dir by blast
  obtain n c where fn: "f = (n, c)" by (cases f)
  from r have h: "endswith n ''.html''" and p: "path_join dirpath filename = path_join d n"
    unfolding fn read_in_visit_file by simp_all
  have v1: "valid_name filename"
    using os_walk_valid_files[OF assms(2) assms(1), of filename content] assms(4) by simp
  have v2: "valid_name n"
    using os_walk_valid_files[OF w assms(1), of n c] f unfolding wd fn by simp
  from path_join_same_name[OF v1 v2 p] h show "endswith filename ''.html''" by simp
next
  assume "endswith filename ''.html''"
  then have "Open_Read (path_join dirpath filename) \<in> set (visit_file dirpath (filename, content))"
    unfolding read_in_visit_file by simp
  with assms(3,4) have "Open_Read (path_join dirpath filename) \<in> set (visit_dir (dirpath, dirnames, files))"
    unfolding event_in_visit_dir by blast
  with assms(2) show "Open_Read (path_join dirpath filename) \<in> set (update_html_files root_dir tree)"
    unfolding event_in_run by blast
qed

lemma other_casing_not_suffix:
  assumes "map lower suffix = ''.html''" "suffix \<noteq> ''.html''"
  shows "\<not> endswith (stem @ suffix) ''.html''"
proof -
  from assms(1) have "length (map lower suffix) = length ''.html''" by simp
  then have "length suffix = 5" by simp
  with assms(2) show ?thesis by (simp add: endswith_def)
qed

text \<open>
  Claim C6. The selection of files is case-sensitive on the suffix of the name: a file
  that the walk lists in a directory whose path does not contain the text
  \<^verbatim>\<open>node_modules\<close> is opened by the run if and only if its name ends with the lowercase
  text \<^verbatim>\<open>.html\<close>; a name that ends with another casing of that suffix is not processed.
  The directories left out are those whose path contains \<^verbatim>\<open>node_modules\<close> anywhere, which
  is more than the directories with a segment equal to it: the evaluation after the
  theorem shows a file \<^verbatim>\<open>a.html\<close> in \<^verbatim>\<open>./node_modules_old\<close> that is not processed.
\<close>

theorem lowercase_html_files_opened:
  assumes "valid_tree tree" "(dirpath, dirnames, files) \<in> set (os_walk root_dir tree)"
    "\<not> contains ''node_modules'' dirpath" "(filename, content) \<in> set files"
  shows "(Open_Read (path_join dirpath filename) \<in> set (update_html_files root_dir tree) \<longleftrightarrow>
            (\<exists>stem. filename = stem @ ''.html'')) \<and>
         (\<forall>stem suffix. filename = stem @ suffix \<and> map lower suffix = ''.html'' \<and>
              suffix \<noteq> ''.html'' \<longrightarrow>
            Open_Read (path_join dirpath filename) \<notin> set (update_html_files root_dir tree))"
proof (intro conjI allI impI)
  show "Open_Read (path_join dirpath filename) \<in> set (update_html_files root_dir tree) \<longleftrightarrow>
            (\<exists>stem. filename = stem @ ''.html'')"
    using read_in_run[OF assms] by (simp add: endswith_iff)
next
  fix stem suffix
  assume a: "filename = stem @ suffix \<and> map lower suffix = ''.html'' \<and> suffix \<noteq> ''.html''"
  then have "\<not> endswith filename ''.html''" using other_casing_not_suffix[of suffix stem] by simp
  then show "Open_Read (path_join dirpath filename) \<notin> set (update_html_files root_dir tree)"
    using read_in_run[OF assms] by simp
qed

theorem lowercase_html_files_opened_witness:
  \<open>valid_tree (Dir [(''a.html'', File ''<p>''), (''B.HTML'', File ''<p>'')]) \<and>
   os_walk ''.'' (Dir [(''a.html'', File ''<p>''), (''B.HTML'', File ''<p>'')]) =
     [(''.'', [], [(''a.html'', ''<p>''), (''B.HTML'', ''<p>'')])] \<and>
   \<not> contains ''node_modules'' ''.'' \<and>
   Open_Read ''./a.html'' \<in> set (update_html_files ''.'' (Dir [(''a.html'', File ''<p>''), (''B.HTML'', File ''<p>'')])) \<and>
   map lower ''.HTML'' = ''.html'' \<and> ''.HTML'' \<noteq> ''.html'' \<and>
   Open_Read ''./B.HTML'' \<notin> set (update_html_files ''.'' (Dir [(''a.html'', File ''<p>''), (''B.HTML'', File ''<p>'')]))\<close>
proof -
  define T where "T = Dir [(''a.html'', File ''<p>''), (''B.HTML'', File ''<p>'')]"
  have v: "valid_tree T" unfolding T_def by (simp add: valid_name_def)
  have w: "os_walk ''.'' T = [(''.'', [], [(''a.html'', ''<p>''), (''B.HTML'', ''<p>'')])]"
    unfolding T_def by simp
  then have m: "(''.'', [], [(''a.html'', ''<p>''), (''B.HTML'', ''<p>'')]) \<in> set (os_walk ''.'' T)"
    by simp
  have c: "\<not> contains ''node_modules'' ''.''" by code_simp
  have l: "map lower ''.HTML'' = ''.html''" "''.HTML'' \<noteq> ''.html''" by code_simp+
  have pa: "path_join ''.'' ''a.html'' = ''./a.html''" and pb: "path_join ''.'' ''B.HTML'' = ''./B.HTML''"
    by code_simp+
  have fa: "(''a.html'', ''<p>'') \<in> set [(''a.html'', ''<p>''), (''B.HTML'', ''<p>'')]"
    and fb: "(''B.HTML'', ''<p>'') \<in> set [(''a.html'', ''<p>''), (''B.HTML'', ''<p>'')]" by simp_all
  have sa: "\<exists>stem. ''a.html'' = stem @ ''.html''" by (rule exI[of _ "''a''"]) simp
  have sb: "''B.HTML'' = ''B'' @ ''.HTML'' \<and> map lower ''.HTML'' = ''.html'' \<and> ''.HTML'' \<noteq> ''.html''"
    using l by simp
  from lowercase_html_files_opened[OF v m c fa, THEN conjunct1] sa
  have 1: "Open_Read ''./a.html'' \<in> set (update_html_files ''.'' T)" unfolding pa by simp
  from lowercase_html_files_opened[OF v m c fb, THEN conjunct2, rule_format, OF sb]
  have 2: "Open_Read ''./B.HTML'' \<notin> set (update_html_files ''.'' T)" unfolding pb .
  show ?thesis using v w c l 1 2 unfolding T_def by (intro conjI)
qed

text \<open>
  A file whose name ends with \<^verbatim>\<open>.html\<close>, in a directory none of whose segments is
  \<^verbatim>\<open>node_modules\<close>, that the run does not open: the path of the directory contains that
  text. The same file in a directory named \<^verbatim>\<open>old\<close> is processed.
\<close>

theorem html_file_in_node_modules_old_skipped:
  \<open>''node_modules'' \<notin> set (path_segments ''./node_modules_old'') \<and>
   os_walk ''.'' (Dir [(''node_modules_old'', Dir [(''a.html'', File ''<img src="x.jpg">'')])]) =
     [(''.'', [''node_modules_old''], []),
      (''./node_modules_old'', [], [(''a.html'', ''<img src="x.jpg">'')])] \<and>
   endswith ''a.html'' ''.html'' \<and>
   update_html_files ''.'' (Dir [(''node_modules_old'', Dir [(''a.html'', File ''<img src="x.jpg">'')])]) = [] \<and>
   update_html_files ''.'' (Dir [(''old'', Dir [(''a.html'', File ''<img src="x.jpg">'')])]) =
     [Open_Read ''./old/a.html'', Print ''Updating ./old/a.html'',
      Open_Write ''./old/a.html'' ''<img src="x.webp">'']\<close>
  by code_simp

section \<open>The shape of a match of the pattern\<close>

lemma lower_cases:
  "lower x = x \<or> (x \<in> set ''ABCDEFGHIJKLMNOPQRSTUVWXYZ'' \<and> lower x \<in> set ''abcdefghijklmnopqrstuvwxyz'')"
  by (simp add: lower_def)

lemma lower_idem: "lower (lower x) = lower x"
  by (simp add: lower_def)

lemma lower_eq_dot [simp]: "lower x = CHR ''.'' \<longleftrightarrow> x = CHR ''.''"
  and lower_eq_gt [simp]: "lower x = CHR ''>'' \<longleftrightarrow> x = CHR ''>''"
  and lower_eq_lt [simp]: "lower x = CHR ''<'' \<longleftrightarrow> x = CHR ''<''"
  and lower_eq_eq [simp]: "lower x = CHR ''='' \<longleftrightarrow> x = CHR ''=''"
  and lower_eq_dq [simp]: "lower x = CHR 0x22 \<longleftrightarrow> x = CHR 0x22"
  and lower_eq_sq [simp]: "lower x = CHR 0x27 \<longleftrightarrow> x = CHR 0x27"
  by (auto simp: lower_def)

lemma accepts_simps [simp]:
  "accepts (Literal (CHR ''.'')) x \<longleftrightarrow> x = CHR ''.''"
  "accepts (Literal (CHR ''>'')) x \<longleftrightarrow> x = CHR ''>''"
  "accepts (Literal (CHR ''<'')) x \<longleftrightarrow> x = CHR ''<''"
  "accepts (Literal (CHR ''='')) x \<longleftrightarrow> x = CHR ''=''"
  "accepts (Not_In ''>'') x \<longleftrightarrow> x \<noteq> CHR ''>''"
  "accepts (In quotes) x \<longleftrightarrow> x \<in> set quotes"
  "accepts (Not_In quotes) x \<longleftrightarrow> x \<notin> set quotes"
  by (auto simp: quotes_def lower_def)

lemma lower_const [simp]:
  "lower (CHR ''<'') = CHR ''<''" "lower (CHR ''>'') = CHR ''>''" "lower (CHR ''.'') = CHR ''.''"
  "lower (CHR ''='') = CHR ''=''" "lower (CHR ''i'') = CHR ''i''" "lower (CHR ''m'') = CHR ''m''"
  "lower (CHR ''g'') = CHR ''g''" "lower (CHR ''s'') = CHR ''s''" "lower (CHR ''r'') = CHR ''r''"
  "lower (CHR ''c'') = CHR ''c''" "lower (CHR ''j'') = CHR ''j''" "lower (CHR ''p'') = CHR ''p''"
  "lower (CHR ''n'') = CHR ''n''" "lower (CHR 0x22) = CHR 0x22" "lower (CHR 0x27) = CHR 0x27"
  by (simp_all add: lower_def)

lemma lower_in_quotes [simp]: "lower x \<in> lower ` set quotes \<longleftrightarrow> x \<in> set quotes"
  by (auto simp: quotes_def)

lemma lower_in_whitespace [simp]:
  "lower x \<in> lower ` set whitespace \<longleftrightarrow> x \<in> set whitespace"
  by (auto simp: whitespace_def lower_def)

lemma accepts_whitespace [simp]: "accepts (In whitespace) x \<longleftrightarrow> x \<in> set whitespace"
  by (auto simp: whitespace_def lower_def)

lemma accepts_letter [simp]:
  "accepts (Literal (CHR ''i'')) x \<longleftrightarrow> lower x = CHR ''i''"
  "accepts (Literal (CHR ''m'')) x \<longleftrightarrow> lower x = CHR ''m''"
  "accepts (Literal (CHR ''g'')) x \<longleftrightarrow> lower x = CHR ''g''"
  "accepts (Literal (CHR ''s'')) x \<longleftrightarrow> lower x = CHR ''s''"
  "accepts (Literal (CHR ''r'')) x \<longleftrightarrow> lower x = CHR ''r''"
  "accepts (Literal (CHR ''c'')) x \<longleftrightarrow> lower x = CHR ''c''"
  "accepts (Literal (CHR ''j'')) x \<longleftrightarrow> lower x = CHR ''j''"
  "accepts (Literal (CHR ''p'')) x \<longleftrightarrow> lower x = CHR ''p''"
  "accepts (Literal (CHR ''n'')) x \<longleftrightarrow> lower x = CHR ''n''"
  by (simp_all add: lower_def)

lemma img_tag_nodes:
  "concat img_tag_pattern =
     [One (Literal (CHR ''<'')), One (Literal (CHR ''i'')), One (Literal (CHR ''m'')),
      One (Literal (CHR ''g'')), Max_Repeat 1 (In whitespace), Max_Repeat 0 (Not_In ''>''),
      One (Literal (CHR ''s'')), One (Literal (CHR ''r'')), One (Literal (CHR ''c'')),
      One (Literal (CHR ''='')), One (In quotes),
      Max_Repeat 1 (Not_In quotes), One (Literal (CHR ''.'')),
      Branch [map Literal ''jpg'', map Literal ''png''],
      One (In quotes), Max_Repeat 0 (Not_In ''>''), One (Literal (CHR ''>''))]"
  by (simp add: img_tag_pattern_def lit_def)

definition group1_ok :: "string \<Rightarrow> bool" where
  "group1_ok g \<longleftrightarrow>
     (\<exists>t W A a q. g = t @ W @ A @ a @ [q] \<and> map lower t = ''<img'' \<and> W \<noteq> [] \<and>
        set W \<subseteq> set whitespace \<and> CHR ''>'' \<notin> set A \<and> map lower a = ''src='' \<and> q \<in> set quotes)"

lemma ok_One:
  assumes "list_all2 node_ok (One c # ns) ps"
  obtains x qs where "ps = [x] # qs" "accepts c x" "list_all2 node_ok ns qs"
  using assms by (auto simp: list_all2_Cons1)

lemma ok_Rep:
  assumes "list_all2 node_ok (Max_Repeat mn c # ns) ps"
  obtains p qs where "ps = p # qs" "mn \<le> length p" "\<forall>x \<in> set p. accepts c x"
    "list_all2 node_ok ns qs"
  using assms by (auto simp: list_all2_Cons1)

lemma ok_Branch:
  assumes "list_all2 node_ok (Branch alts # ns) ps"
  obtains p qs where "ps = p # qs" "\<exists>alt \<in> set alts. list_all2 accepts alt p"
    "list_all2 node_ok ns qs"
  using assms by (auto simp: list_all2_Cons1)

lemma ok_Nil: "list_all2 node_ok [] ps \<Longrightarrow> ps = []"
  by simp

lemma ext_ok:
  assumes "\<exists>alt \<in> set [map Literal ''jpg'', map Literal ''png'']. list_all2 accepts alt E"
  shows "map lower E = ''jpg'' \<or> map lower E = ''png''"
  using assms by (auto simp: list_all2_Cons1)

lemma img_match_shape:
  assumes "pattern_match img_tag_pattern s = Some (m, r)"
  shows "\<exists>g1 P E q B. m = [g1, P @ ''.'', E, q # B @ ''>''] \<and>
           s = g1 @ P @ ''.'' @ E @ q # B @ ''>'' @ r \<and>
           group1_ok g1 \<and> P \<noteq> [] \<and> set P \<inter> set quotes = {} \<and>
           (map lower E = ''jpg'' \<or> map lower E = ''png'') \<and>
           q \<in> set quotes \<and> CHR ''>'' \<notin> set B"
proof -
  from assms obtain ps where ps: "sre_match (concat img_tag_pattern) s = Some (ps, r)"
    and m: "m = split_groups img_tag_pattern ps"
    by (auto simp: pattern_match_def split: option.splits)
  from sre_match_sound[OF ps] have s: "s = concat ps @ r"
    and ok: "list_all2 node_ok (concat img_tag_pattern) ps" by auto
  from ok[unfolded img_tag_nodes] obtain x1 r1 where p1: "ps = [x1] # r1" and a1: "x1 = CHR ''<''"
    and o1: "list_all2 node_ok [One (Literal (CHR ''i'')), One (Literal (CHR ''m'')),
      One (Literal (CHR ''g'')), Max_Repeat 1 (In whitespace), Max_Repeat 0 (Not_In ''>''),
      One (Literal (CHR ''s'')), One (Literal (CHR ''r'')), One (Literal (CHR ''c'')),
      One (Literal (CHR ''='')), One (In quotes),
      Max_Repeat 1 (Not_In quotes), One (Literal (CHR ''.'')),
      Branch [map Literal ''jpg'', map Literal ''png''],
      One (In quotes), Max_Repeat 0 (Not_In ''>''), One (Literal (CHR ''>''))] r1"
    by (elim ok_One) simp
  from o1 obtain x2 r2 where p2: "r1 = [x2] # r2" and a2: "lower x2 = CHR ''i''"
    and o2: "list_all2 node_ok [One (Literal (CHR ''m'')),
      One (Literal (CHR ''g'')), Max_Repeat 1 (In whitespace), Max_Repeat 0 (Not_In ''>''),
      One (Literal (CHR ''s'')), One (Literal (CHR ''r'')), One (Literal (CHR ''c'')),
      One (Literal (CHR ''='')), One (In quotes),
      Max_Repeat 1 (Not_In quotes), One (Literal (CHR ''.'')),
      Branch [map Literal ''jpg'', map Literal ''png''],
      One (In quotes), Max_Repeat 0 (Not_In ''>''), One (Literal (CHR ''>''))] r2"
    by (elim ok_One) simp
  from o2 obtain x3 r3 where p3: "r2 = [x3] # r3" and a3: "lower x3 = CHR ''m''"
    and o3: "list_all2 node_ok [
      One (Literal (CHR ''g'')), Max_Repeat 1 (In whitespace), Max_Repeat 0 (Not_In ''>''),
      One (Literal (CHR ''s'')), One (Literal (CHR ''r'')), One (Literal (CHR ''c'')),
      One (Literal (CHR ''='')), One (In quotes),
      Max_Repeat 1 (Not_In quotes), One (Literal (CHR ''.'')),
      Branch [map Literal ''jpg'', map Literal ''png''],
      One (In quotes), Max_Repeat 0 (Not_In ''>''), One (Literal (CHR ''>''))] r3"
    by (elim ok_One) simp
  from o3 obtain x4 r4 where p4: "r3 = [x4] # r4" and a4: "lower x4 = CHR ''g''"
    and o4: "list_all2 node_ok [Max_Repeat 1 (In whitespace), Max_Repeat 0 (Not_In ''>''),
      One (Literal (CHR ''s'')), One (Literal (CHR ''r'')), One (Literal (CHR ''c'')),
      One (Literal (CHR ''='')), One (In quotes),
      Max_Repeat 1 (Not_In quotes), One (Literal (CHR ''.'')),
      Branch [map Literal ''jpg'', map Literal ''png''],
      One (In quotes), Max_Repeat 0 (Not_In ''>''), One (Literal (CHR ''>''))] r4"
    by (elim ok_One) simp
  from o4 obtain W r5 where p5: "r4 = W # r5" and a5: "1 \<le> length W" "\<forall>x \<in> set W. x \<in> set whitespace"
    and o5: "list_all2 node_ok [Max_Repeat 0 (Not_In ''>''),
      One (Literal (CHR ''s'')), One (Literal (CHR ''r'')), One (Literal (CHR ''c'')),
      One (Literal (CHR ''='')), One (In quotes),
      Max_Repeat 1 (Not_In quotes), One (Literal (CHR ''.'')),
      Branch [map Literal ''jpg'', map Literal ''png''],
      One (In quotes), Max_Repeat 0 (Not_In ''>''), One (Literal (CHR ''>''))] r5"
    by (elim ok_Rep) simp
  from o5 obtain A r6 where p6: "r5 = A # r6" and a6: "\<forall>x \<in> set A. x \<noteq> CHR ''>''"
    and o6: "list_all2 node_ok [
      One (Literal (CHR ''s'')), One (Literal (CHR ''r'')), One (Literal (CHR ''c'')),
      One (Literal (CHR ''='')), One (In quotes),
      Max_Repeat 1 (Not_In quotes), One (Literal (CHR ''.'')),
      Branch [map Literal ''jpg'', map Literal ''png''],
      One (In quotes), Max_Repeat 0 (Not_In ''>''), One (Literal (CHR ''>''))] r6"
    by (elim ok_Rep) simp
  from o6 obtain y1 r7 where p7: "r6 = [y1] # r7" and a7: "lower y1 = CHR ''s''"
    and o7: "list_all2 node_ok [One (Literal (CHR ''r'')), One (Literal (CHR ''c'')),
      One (Literal (CHR ''='')), One (In quotes),
      Max_Repeat 1 (Not_In quotes), One (Literal (CHR ''.'')),
      Branch [map Literal ''jpg'', map Literal ''png''],
      One (In quotes), Max_Repeat 0 (Not_In ''>''), One (Literal (CHR ''>''))] r7"
    by (elim ok_One) simp
  from o7 obtain y2 r8 where p8: "r7 = [y2] # r8" and a8: "lower y2 = CHR ''r''"
    and o8: "list_all2 node_ok [One (Literal (CHR ''c'')),
      One (Literal (CHR ''='')), One (In quotes),
      Max_Repeat 1 (Not_In quotes), One (Literal (CHR ''.'')),
      Branch [map Literal ''jpg'', map Literal ''png''],
      One (In quotes), Max_Repeat 0 (Not_In ''>''), One (Literal (CHR ''>''))] r8"
    by (elim ok_One) simp
  from o8 obtain y3 r9 where p9: "r8 = [y3] # r9" and a9: "lower y3 = CHR ''c''"
    and o9: "list_all2 node_ok [One (Literal (CHR ''='')), One (In quotes),
      Max_Repeat 1 (Not_In quotes), One (Literal (CHR ''.'')),
      Branch [map Literal ''jpg'', map Literal ''png''],
      One (In quotes), Max_Repeat 0 (Not_In ''>''), One (Literal (CHR ''>''))] r9"
    by (elim ok_One) simp
  from o9 obtain y4 r10 where p10: "r9 = [y4] # r10" and a10: "y4 = CHR ''=''"
    and o10: "list_all2 node_ok [One (In quotes),
      Max_Repeat 1 (Not_In quotes), One (Literal (CHR ''.'')),
      Branch [map Literal ''jpg'', map Literal ''png''],
      One (In quotes), Max_Repeat 0 (Not_In ''>''), One (Literal (CHR ''>''))] r10"
    by (elim ok_One) simp
  from o10 obtain q1 r11 where p11: "r10 = [q1] # r11" and a11: "q1 \<in> set quotes"
    and o11: "list_all2 node_ok [Max_Repeat 1 (Not_In quotes), One (Literal (CHR ''.'')),
      Branch [map Literal ''jpg'', map Literal ''png''],
      One (In quotes), Max_Repeat 0 (Not_In ''>''), One (Literal (CHR ''>''))] r11"
    by (elim ok_One) simp
  from o11 obtain P r12 where p12: "r11 = P # r12" and a12: "1 \<le> length P" "\<forall>x \<in> set P. x \<notin> set quotes"
    and o12: "list_all2 node_ok [One (Literal (CHR ''.'')),
      Branch [map Literal ''jpg'', map Literal ''png''],
      One (In quotes), Max_Repeat 0 (Not_In ''>''), One (Literal (CHR ''>''))] r12"
    by (elim ok_Rep) simp
  from o12 obtain d r13 where p13: "r12 = [d] # r13" and a13: "d = CHR ''.''"
    and o13: "list_all2 node_ok [Branch [map Literal ''jpg'', map Literal ''png''],
      One (In quotes), Max_Repeat 0 (Not_In ''>''), One (Literal (CHR ''>''))] r13"
    by (elim ok_One) simp
  from o13 obtain E r14 where p14: "r13 = E # r14"
    and a14: "\<exists>alt \<in> set [map Literal ''jpg'', map Literal ''png'']. list_all2 accepts alt E"
    and o14: "list_all2 node_ok [One (In quotes), Max_Repeat 0 (Not_In ''>''),
      One (Literal (CHR ''>''))] r14"
    by (elim ok_Branch)
  from o14 obtain q r15 where p15: "r14 = [q] # r15" and a15: "q \<in> set quotes"
    and o15: "list_all2 node_ok [Max_Repeat 0 (Not_In ''>''), One (Literal (CHR ''>''))] r15"
    by (elim ok_One) simp
  from o15 obtain B r16 where p16: "r15 = B # r16" and a16: "\<forall>x \<in> set B. x \<noteq> CHR ''>''"
    and o16: "list_all2 node_ok [One (Literal (CHR ''>''))] r16"
    by (elim ok_Rep) simp
  from o16 obtain e r17 where p17: "r16 = [e] # r17" and a17: "e = CHR ''>''"
    and o17: "list_all2 node_ok [] r17"
    by (elim ok_One) simp
  from o17 have p18: "r17 = []" by simp
  have pieces:
    "ps = [[x1], [x2], [x3], [x4], W, A, [y1], [y2], [y3], [y4], [q1], P, [d], E, [q], B, [e]]"
    by (simp only: p1 p2 p3 p4 p5 p6 p7 p8 p9 p10 p11 p12 p13 p14 p15 p16 p17 p18)
  note E = ext_ok[OF a14]
  have g1: "group1_ok ([x1, x2, x3, x4] @ W @ A @ [y1, y2, y3, y4] @ [q1])"
    unfolding group1_ok_def
  proof (intro exI conjI)
    show "[x1, x2, x3, x4] @ W @ A @ [y1, y2, y3, y4] @ [q1] =
          [x1, x2, x3, x4] @ W @ A @ [y1, y2, y3, y4] @ [q1]" ..
    show "map lower [x1, x2, x3, x4] = ''<img''" using a1 a2 a3 a4 by simp
    show "W \<noteq> []" using a5(1) by auto
    show "set W \<subseteq> set whitespace" using a5(2) by auto
    show "CHR ''>'' \<notin> set A" using a6 by auto
    show "map lower [y1, y2, y3, y4] = ''src=''" using a7 a8 a9 a10 by simp
    show "q1 \<in> set quotes" by (rule a11)
  qed
  have mm: "m = [[x1, x2, x3, x4] @ W @ A @ [y1, y2, y3, y4] @ [q1], P @ ''.'', E, q # B @ ''>'']"
    unfolding m pieces by (simp add: img_tag_pattern_def lit_def a13 a17)
  have ss: "s = ([x1, x2, x3, x4] @ W @ A @ [y1, y2, y3, y4] @ [q1]) @ P @ ''.'' @ E @ q # B @ ''>'' @ r"
    unfolding s pieces by (simp add: a13 a17)
  have P: "P \<noteq> []" "set P \<inter> set quotes = {}" using a12 by auto
  have B: "CHR ''>'' \<notin> set B" using a16 by auto
  show ?thesis
    by (intro exI conjI) (rule mm ss g1 P E a15 B)+
qed

section \<open>Claims about the substitution\<close>

lemma new_content_unfold:
  "new_content s =
     (case pattern_match img_tag_pattern s of
        Some (m, r) \<Rightarrow> replace_ext m @ new_content r
      | None \<Rightarrow> (case s of [] \<Rightarrow> [] | x # xs \<Rightarrow> x # new_content xs))"
  unfolding new_content_def by (subst img_tag_pattern_sub.simps) simp

lemma new_content_match:
  "pattern_match img_tag_pattern s = Some (m, r) \<Longrightarrow> new_content s = replace_ext m @ new_content r"
  by (subst new_content_unfold) simp

lemma new_content_no_match:
  "pattern_match img_tag_pattern (x # t) = None \<Longrightarrow> new_content (x # t) = x # new_content t"
  by (subst new_content_unfold) simp

lemma new_content_Nil: "new_content [] = []"
  by (subst new_content_unfold) (auto split: option.splits dest: img_tag_pattern_shorter)

lemma replace_ext_groups: "replace_ext [g1, g2, g3, g4] = g1 @ g2 @ ''webp'' @ g4"
  by (simp add: replace_ext_def group_def)

lemma new_content_induct [case_names match no_match nil]:
  assumes "\<And>s m r. pattern_match img_tag_pattern s = Some (m, r) \<Longrightarrow> P r \<Longrightarrow> P s"
    and "\<And>x t. pattern_match img_tag_pattern (x # t) = None \<Longrightarrow> P t \<Longrightarrow> P (x # t)"
    and "P []"
  shows "P s"
proof (induction s rule: length_induct)
  case (1 s)
  show ?case
  proof (cases "pattern_match img_tag_pattern s")
    case None
    show ?thesis
    proof (cases s)
      case Nil
      then show ?thesis using assms(3) by simp
    next
      case (Cons x t)
      have "P t" using 1 Cons by simp
      with None Cons assms(2) show ?thesis by simp
    qed
  next
    case (Some a)
    obtain m r where a: "a = (m, r)" by (cases a)
    have m: "pattern_match img_tag_pattern s = Some (m, r)" using Some a by simp
    then have "length r < length s" by (rule img_tag_pattern_shorter)
    then have "P r" using 1 by simp
    with m show ?thesis by (rule assms(1))
  qed
qed

text \<open>
  Claim C1. Where the pattern matches, the match has four groups that are consecutive
  pieces of the text, the third being \<^verbatim>\<open>jpg\<close> or \<^verbatim>\<open>png\<close> in some casing, the second ending
  with the dot and the fourth starting with the closing quote; the match is replaced by
  group 1, group 2, the text \<^verbatim>\<open>webp\<close> and group 4, so only the letters of the extension
  change. The substitution then goes on in the text after the match, so every match is
  replaced, not only the first; where the pattern does not match, the character is kept.
\<close>

theorem every_match_rewritten:
  "(pattern_match img_tag_pattern s = Some (m, r) \<longrightarrow>
      (\<exists>g1 g2 g3 g4. m = [g1, g2, g3, g4] \<and> s = g1 @ g2 @ g3 @ g4 @ r \<and>
         (map lower g3 = ''jpg'' \<or> map lower g3 = ''png'') \<and>
         (\<exists>p. g2 = p @ ''.'') \<and> (\<exists>q t. g4 = q # t \<and> q \<in> set quotes) \<and>
         replace_ext m = g1 @ g2 @ ''webp'' @ g4 \<and>
         new_content s = g1 @ g2 @ ''webp'' @ g4 @ new_content r)) \<and>
   (pattern_match img_tag_pattern (x # t) = None \<longrightarrow> new_content (x # t) = x # new_content t)"
proof (intro conjI impI)
  assume m: "pattern_match img_tag_pattern s = Some (m, r)"
  from img_match_shape[OF m] obtain g1 P E q B where
    sh: "m = [g1, P @ ''.'', E, q # B @ ''>'']" "s = g1 @ P @ ''.'' @ E @ q # B @ ''>'' @ r"
      "map lower E = ''jpg'' \<or> map lower E = ''png''" "q \<in> set quotes"
    by (elim exE conjE)
  show "\<exists>g1 g2 g3 g4. m = [g1, g2, g3, g4] \<and> s = g1 @ g2 @ g3 @ g4 @ r \<and>
         (map lower g3 = ''jpg'' \<or> map lower g3 = ''png'') \<and>
         (\<exists>p. g2 = p @ ''.'') \<and> (\<exists>q t. g4 = q # t \<and> q \<in> set quotes) \<and>
         replace_ext m = g1 @ g2 @ ''webp'' @ g4 \<and>
         new_content s = g1 @ g2 @ ''webp'' @ g4 @ new_content r"
  proof (intro exI conjI)
    show "m = [g1, P @ ''.'', E, q # B @ ''>'']" by (rule sh(1))
    show "s = g1 @ (P @ ''.'') @ E @ (q # B @ ''>'') @ r" using sh(2) by simp
    show "map lower E = ''jpg'' \<or> map lower E = ''png''" by (rule sh(3))
    show "P @ ''.'' = P @ ''.''" ..
    show "q # B @ ''>'' = q # B @ ''>''" ..
    show "q \<in> set quotes" by (rule sh(4))
    show "replace_ext m = g1 @ (P @ ''.'') @ ''webp'' @ (q # B @ ''>'')"
      unfolding sh(1) by (rule replace_ext_groups)
    show "new_content s = g1 @ (P @ ''.'') @ ''webp'' @ (q # B @ ''>'') @ new_content r"
      using new_content_match[OF m] unfolding sh(1) replace_ext_groups by simp
  qed
next
  assume "pattern_match img_tag_pattern (x # t) = None"
  then show "new_content (x # t) = x # new_content t" by (rule new_content_no_match)
qed

theorem every_match_rewritten_witness:
  \<open>pattern_match img_tag_pattern ''<img class="hero" src='pic.jpg' alt="x"><img src="b.png">'' =
     Some ([''<img class="hero" src='' @ [CHR 0x27], ''pic.'', ''jpg'', CHR 0x27 # '' alt="x">''],
           ''<img src="b.png">'') \<and>
   new_content ''<img class="hero" src='pic.jpg' alt="x"><img src="b.png">'' =
     ''<img class="hero" src='pic.webp' alt="x">'' @ new_content ''<img src="b.png">'' \<and>
   new_content ''<img src="b.png">'' = ''<img src="b.webp">'' \<and>
   pattern_match img_tag_pattern ''<p>'' = None \<and>
   new_content ''<p>'' = CHR ''<'' # new_content ''p>''\<close>
proof -
  have h: \<open>pattern_match img_tag_pattern ''<img class="hero" src='pic.jpg' alt="x"><img src="b.png">'' =
     Some ([''<img class="hero" src='' @ [CHR 0x27], ''pic.'', ''jpg'', CHR 0x27 # '' alt="x">''],
           ''<img src="b.png">'')\<close>
    by code_simp
  have n: "pattern_match img_tag_pattern ''<p>'' = None" by code_simp
  have b: \<open>new_content ''<img src="b.png">'' = ''<img src="b.webp">''\<close> by code_simp
  from every_match_rewritten[of \<open>''<img class="hero" src='pic.jpg' alt="x"><img src="b.png">''\<close>
      \<open>[''<img class="hero" src='' @ [CHR 0x27], ''pic.'', ''jpg'', CHR 0x27 # '' alt="x">'']\<close>
      \<open>''<img src="b.png">''\<close> "CHR ''<''" "''p>''"] h n
  have \<open>new_content ''<img class="hero" src='pic.jpg' alt="x"><img src="b.png">'' =
     (''<img class="hero" src='' @ [CHR 0x27]) @ ''pic.'' @ ''webp'' @ (CHR 0x27 # '' alt="x">'') @ new_content ''<img src="b.png">''\<close>
    and \<open>new_content ''<p>'' = CHR ''<'' # new_content ''p>''\<close>
    by auto
  with h n b show ?thesis by simp
qed

subsection \<open>Case folding\<close>

text \<open>Matching a text commutes with folding its case.\<close>

lemma accepts_lower: "accepts c (lower x) = accepts c x"
  by (cases c) (simp_all add: lower_idem)

definition lower_result :: "(string list \<times> string) option \<Rightarrow> (string list \<times> string) option" where
  "lower_result res = map_option (\<lambda>(ps, r). (map (map lower) ps, map lower r)) res"

lemma lower_result_push:
  "lower_result (push p res) = push (map lower p) (lower_result res)"
  by (simp add: lower_result_def push_def split: option.splits)

lemma first_down_lower:
  "first_down (\<lambda>n. lower_result (f n)) mn n = lower_result (first_down f mn n)"
  by (induction n) (auto simp: lower_result_def split: option.splits)

lemma first_alt_lower:
  "first_alt (\<lambda>a. lower_result (f a)) as = lower_result (first_alt f as)"
  by (induction as) (auto simp: lower_result_def split: option.splits)

lemma takeWhile_lower:
  "length (takeWhile (accepts c) (map lower s)) = length (takeWhile (accepts c) s)"
  by (induction s) (simp_all add: accepts_lower)

lemma match_lit_lower:
  "match_lit cs (map lower s) =
     map_option (\<lambda>(p, r). (map lower p, map lower r)) (match_lit cs s)"
  by (induction cs s rule: match_lit.induct) (auto simp: accepts_lower split: option.splits)

lemma sre_match_lower: "sre_match ns (map lower s) = lower_result (sre_match ns s)"
proof (induction ns s rule: sre_match.induct)
  case (1 s)
  then show ?case by (simp add: lower_result_def)
next
  case (2 c ns s)
  show ?case
  proof (cases s)
    case Nil
    then show ?thesis by (simp add: lower_result_def)
  next
    case (Cons x r)
    show ?thesis
    proof (cases "accepts c x")
      case True
      with Cons "2.IH"[OF Cons True] show ?thesis
        by (simp add: accepts_lower lower_result_push)
    next
      case False
      with Cons show ?thesis by (simp add: accepts_lower lower_result_def)
    qed
  qed
next
  case (3 mn c ns s)
  have "(\<lambda>n. push (take n (map lower s)) (sre_match ns (drop n (map lower s)))) =
        (\<lambda>n. lower_result (push (take n s) (sre_match ns (drop n s))))"
    using "3.IH" by (simp add: lower_result_push take_map drop_map)
  then show ?case by (simp add: takeWhile_lower first_down_lower)
next
  case (4 alts ns s)
  have "(\<lambda>alt. case match_lit alt (map lower s) of None \<Rightarrow> None
                 | Some (p, r) \<Rightarrow> push p (sre_match ns r)) =
        (\<lambda>alt. lower_result (case match_lit alt s of None \<Rightarrow> None
                 | Some (p, r) \<Rightarrow> push p (sre_match ns r)))"
  proof
    fix alt
    show "(case match_lit alt (map lower s) of None \<Rightarrow> None
                 | Some (p, r) \<Rightarrow> push p (sre_match ns r)) =
          lower_result (case match_lit alt s of None \<Rightarrow> None
                 | Some (p, r) \<Rightarrow> push p (sre_match ns r))"
    proof (cases "match_lit alt s")
      case None
      then show ?thesis by (simp add: match_lit_lower lower_result_def)
    next
      case (Some a)
      obtain p r where a: "a = (p, r)" by (cases a)
      from "4.IH"[OF Some[unfolded a] refl] Some a
      show ?thesis by (simp add: match_lit_lower lower_result_push)
    qed
  qed
  then show ?case by (simp add: first_alt_lower)
qed

lemma split_groups_lower:
  "split_groups pat (map (map lower) ps) = map (map lower) (split_groups pat ps)"
  by (induction pat ps rule: split_groups.induct) (simp_all add: take_map drop_map map_concat)

lemma pattern_match_lower:
  "pattern_match pat (map lower s) = lower_result (pattern_match pat s)"
  by (simp add: pattern_match_def sre_match_lower lower_result_def split_groups_lower
      split: option.splits)

text \<open>
  Claim C7. Matching ignores case while the new extension is always the lowercase text
  \<^verbatim>\<open>webp\<close>: when a text matches, every text that differs from it only in the casing of
  letters (of the tag name, of \<^verbatim>\<open>src\<close>, of the extension, of anything else) matches too, with
  groups of the same extent; the groups are pieces of that text itself, so its casing is
  kept in all that is not replaced.
\<close>

theorem matching_ignores_case:
  assumes "map lower t = map lower s"
    and "pattern_match img_tag_pattern s = Some ([g1, g2, g3, g4], r)"
  shows "\<exists>h1 h2 h3 h4 r'.
           pattern_match img_tag_pattern t = Some ([h1, h2, h3, h4], r') \<and>
           t = h1 @ h2 @ h3 @ h4 @ r' \<and>
           map lower h1 = map lower g1 \<and> map lower h2 = map lower g2 \<and>
           map lower h3 = map lower g3 \<and> map lower h4 = map lower g4 \<and>
           map lower r' = map lower r \<and>
           new_content t = h1 @ h2 @ ''webp'' @ h4 @ new_content r'"
proof -
  have "lower_result (pattern_match img_tag_pattern t) =
        lower_result (pattern_match img_tag_pattern s)"
    using assms(1) by (simp add: pattern_match_lower[symmetric])
  then have "lower_result (pattern_match img_tag_pattern t) =
      Some ([map lower g1, map lower g2, map lower g3, map lower g4], map lower r)"
    using assms(2) by (simp add: lower_result_def)
  then obtain m' r' where mt: "pattern_match img_tag_pattern t = Some (m', r')"
    and lm: "map (map lower) m' = [map lower g1, map lower g2, map lower g3, map lower g4]"
    and lr: "map lower r' = map lower r"
    by (auto simp: lower_result_def)
  from lm obtain h1 h2 h3 h4 where m': "m' = [h1, h2, h3, h4]"
    and lh: "map lower h1 = map lower g1" "map lower h2 = map lower g2"
      "map lower h3 = map lower g3" "map lower h4 = map lower g4"
    by (auto simp: map_eq_Cons_conv)
  from img_match_shape[OF mt] m' have t: "t = h1 @ h2 @ h3 @ h4 @ r'"
    by auto
  have n: "new_content t = h1 @ h2 @ ''webp'' @ h4 @ new_content r'"
    using new_content_match[OF mt] unfolding m' replace_ext_groups by simp
  show ?thesis
    by (intro exI conjI) (rule mt[unfolded m'] t lh lr n)+
qed

theorem matching_ignores_case_witness:
  \<open>map lower ''<IMG SRC="Photo.PNG">'' = map lower ''<img src="photo.png">'' \<and>
   pattern_match img_tag_pattern ''<img src="photo.png">'' =
     Some ([''<img src="'', ''photo.'', ''png'', ''">''], []) \<and>
   pattern_match img_tag_pattern ''<IMG SRC="Photo.PNG">'' =
     Some ([''<IMG SRC="'', ''Photo.'', ''PNG'', ''">''], []) \<and>
   new_content ''<IMG SRC="Photo.PNG">'' = ''<IMG SRC="Photo.webp">'' \<and>
   new_content ''<img src="photo.PNG">'' = ''<img src="photo.webp">''\<close>
proof -
  have h1: \<open>map lower ''<IMG SRC="Photo.PNG">'' = map lower ''<img src="photo.png">''\<close>
    by code_simp
  have h2: \<open>pattern_match img_tag_pattern ''<img src="photo.png">'' =
     Some ([''<img src="'', ''photo.'', ''png'', ''">''], [])\<close>
    by code_simp
  have e: \<open>new_content ''<img src="photo.PNG">'' = ''<img src="photo.webp">''\<close>
    by code_simp
  from matching_ignores_case[OF h1 h2] obtain h1 h2 h3 h4 r' where
    m: \<open>pattern_match img_tag_pattern ''<IMG SRC="Photo.PNG">'' = Some ([h1, h2, h3, h4], r')\<close>
    and n: \<open>new_content ''<IMG SRC="Photo.PNG">'' = h1 @ h2 @ ''webp'' @ h4 @ new_content r'\<close>
    by (elim exE conjE)
  have c: \<open>pattern_match img_tag_pattern ''<IMG SRC="Photo.PNG">'' =
     Some ([''<IMG SRC="'', ''Photo.'', ''PNG'', ''">''], [])\<close>
    by code_simp
  from m c have \<open>h1 = ''<IMG SRC="''\<close> "h2 = ''Photo.''" \<open>h4 = ''">''\<close> "r' = []" by simp_all
  with n have \<open>new_content ''<IMG SRC="Photo.PNG">'' = ''<IMG SRC="Photo.webp">''\<close>
    by (simp add: new_content_Nil)
  with h1 h2 c e show ?thesis by simp
qed

subsection \<open>Repeated application\<close>

text \<open>
  The places of a text where a dot, \<^verbatim>\<open>jpg\<close> or \<^verbatim>\<open>png\<close> in some casing and a quote follow
  one another, and their number. Every match of the pattern holds such a place (the end
  of its second group, its third group and the start of its fourth).
\<close>

fun ext_site :: "string \<Rightarrow> bool" where
  "ext_site (a # b # c # d # e # s) =
     (a = CHR ''.'' \<and> (map lower [b, c, d] = ''jpg'' \<or> map lower [b, c, d] = ''png'') \<and>
      e \<in> set quotes)"
| "ext_site s = False"

fun ext_count :: "string \<Rightarrow> nat" where
  "ext_count [] = 0"
| "ext_count (x # s) = (if ext_site (x # s) then 1 else 0) + ext_count s"

lemma ext_site_iff:
  "ext_site s \<longleftrightarrow>
     (\<exists>b c d e t. s = CHR ''.'' # b # c # d # e # t \<and>
        (map lower [b, c, d] = ''jpg'' \<or> map lower [b, c, d] = ''png'') \<and> e \<in> set quotes)"
  by (cases s rule: ext_site.cases) auto

text \<open>
  The characters that can stand after the first position of such a place, and those that
  can stand before its last position.
\<close>

definition inner :: "char \<Rightarrow> bool" where
  "inner c \<longleftrightarrow> lower c \<in> set ''jpgn'' \<or> c \<in> set quotes"

definition leading :: "char \<Rightarrow> bool" where
  "leading c \<longleftrightarrow> c = CHR ''.'' \<or> lower c \<in> set ''jpgn''"

lemma ext_site_cut_after:
  assumes "\<not> inner c" "U \<noteq> []"
  shows "ext_site (U @ c # W) = ext_site U"
proof
  assume "ext_site (U @ c # W)"
  then obtain b c' d e t where eq: "U @ c # W = CHR ''.'' # b # c' # d # e # t"
    and l: "map lower [b, c', d] = ''jpg'' \<or> map lower [b, c', d] = ''png''"
    and q: "e \<in> set quotes"
    unfolding ext_site_iff by (elim exE conjE)
  have i: "inner b" "inner c'" "inner d" "inner e" using l q by (auto simp: inner_def)
  from assms(2) obtain u1 U1 where U: "U = u1 # U1" by (cases U) auto
  with eq have u1: "u1 = CHR ''.''" and e1: "U1 @ c # W = b # c' # d # e # t" by auto
  from e1 i assms(1) obtain U2 where U1: "U1 = b # U2" and e2: "U2 @ c # W = c' # d # e # t"
    by (cases U1) auto
  from e2 i assms(1) obtain U3 where U2: "U2 = c' # U3" and e3: "U3 @ c # W = d # e # t"
    by (cases U2) auto
  from e3 i assms(1) obtain U4 where U3: "U3 = d # U4" and e4: "U4 @ c # W = e # t"
    by (cases U3) auto
  from e4 i assms(1) obtain U5 where U4: "U4 = e # U5"
    by (cases U4) auto
  show "ext_site U" unfolding U U1 U2 U3 U4 u1 using l q by simp
next
  assume "ext_site U"
  then obtain b c' d e t where "U = CHR ''.'' # b # c' # d # e # t"
    "map lower [b, c', d] = ''jpg'' \<or> map lower [b, c', d] = ''png''" "e \<in> set quotes"
    unfolding ext_site_iff by (elim exE conjE)
  then show "ext_site (U @ c # W)" by simp
qed

lemma ext_site_cut_before:
  assumes "\<not> leading c"
  shows "ext_site (U @ c # W) = ext_site (U @ [c])"
proof -
  have *: "ext_site (U @ c # V) \<Longrightarrow> ext_site (U @ c # V')" for V V'
  proof -
    assume "ext_site (U @ c # V)"
    then obtain b c' d e t where eq: "U @ c # V = CHR ''.'' # b # c' # d # e # t"
      and l: "map lower [b, c', d] = ''jpg'' \<or> map lower [b, c', d] = ''png''"
      and q: "e \<in> set quotes"
      unfolding ext_site_iff by (elim exE conjE)
    have i: "leading (CHR ''.'')" "leading b" "leading c'" "leading d"
      using l by (auto simp: leading_def)
    from eq i assms obtain U1 where U: "U = CHR ''.'' # U1" and e1: "U1 @ c # V = b # c' # d # e # t"
      by (cases U) auto
    from e1 i assms obtain U2 where U1: "U1 = b # U2" and e2: "U2 @ c # V = c' # d # e # t"
      by (cases U1) auto
    from e2 i assms obtain U3 where U2: "U2 = c' # U3" and e3: "U3 @ c # V = d # e # t"
      by (cases U2) auto
    from e3 i assms obtain U4 where U3: "U3 = d # U4" and e4: "U4 @ c # V = e # t"
      by (cases U3) auto
    have "\<exists>t'. U4 @ c # V' = e # t'" using e4 by (cases U4) auto
    then obtain t' where "U4 @ c # V' = e # t'" ..
    then have "U @ c # V' = CHR ''.'' # b # c' # d # e # t'" unfolding U U1 U2 U3 by simp
    then show "ext_site (U @ c # V')" using l q by simp
  qed
  show ?thesis using *[of W "[]"] *[of "[]" W] by auto
qed

lemma ext_count_cut_after:
  "\<not> inner c \<Longrightarrow> ext_count (U @ c # W) = ext_count U + ext_count (c # W)"
proof (induction U)
  case Nil
  then show ?case by simp
next
  case (Cons u U)
  have "ext_site ((u # U) @ c # W) = ext_site (u # U)"
    using Cons.prems by (intro ext_site_cut_after) auto
  with Cons show ?case by simp
qed

lemma ext_site_not_leading: "\<not> leading c \<Longrightarrow> \<not> ext_site (c # W)"
  by (auto simp: ext_site_iff leading_def)

lemma ext_count_cut_before:
  "\<not> leading c \<Longrightarrow> ext_count (U @ c # W) = ext_count (U @ [c]) + ext_count W"
proof (induction U)
  case Nil
  then show ?case using ext_site_not_leading[of c W] by simp
next
  case (Cons u U)
  have "ext_site ((u # U) @ c # W) = ext_site ((u # U) @ [c])"
    using Cons.prems by (rule ext_site_cut_before)
  with Cons show ?case by simp
qed

lemma not_inner [simp]: "\<not> inner (CHR ''.'')" "\<not> inner (CHR ''>'')"
  by (simp_all add: inner_def quotes_def lower_def)

lemma not_leading_gt [simp]: "\<not> leading (CHR ''>'')"
  by (simp add: leading_def lower_def)

lemma not_leading_quote: "q \<in> set quotes \<Longrightarrow> \<not> leading q"
  by (auto simp: leading_def quotes_def)

lemma ext_count_gt: "ext_count (CHR ''>'' # R) = ext_count R"
  using ext_site_not_leading[of "CHR ''>''" R] by simp

lemma ext_count_tail:
  assumes "q \<in> set quotes"
  shows "ext_count (w @ q # Bs @ ''>'' @ R) = ext_count (w @ [q]) + ext_count Bs + ext_count R"
proof -
  have "ext_count (w @ q # (Bs @ ''>'' @ R)) = ext_count (w @ [q]) + ext_count (Bs @ ''>'' @ R)"
    using not_leading_quote[OF assms] by (rule ext_count_cut_before)
  moreover have "ext_count (Bs @ CHR ''>'' # R) = ext_count Bs + ext_count (CHR ''>'' # R)"
    by (rule ext_count_cut_after) simp
  moreover have "ext_count (CHR ''>'' # R) = ext_count R" by (rule ext_count_gt)
  ultimately show ?thesis by (simp del: ext_count.simps)
qed

lemma ext_count_matched:
  assumes "map lower E = ''jpg'' \<or> map lower E = ''png''" "q \<in> set quotes"
  shows "ext_count (X @ ''.'' @ E @ q # Bs @ ''>'' @ R) =
         ext_count X + 1 + ext_count Bs + ext_count R"
proof -
  from assms(1) obtain b c d where E: "E = [b, c, d]" by (auto simp: map_eq_Cons_conv)
  have "ext_count (X @ CHR ''.'' # (E @ q # Bs @ ''>'' @ R)) =
        ext_count X + ext_count (CHR ''.'' # (E @ q # Bs @ ''>'' @ R))"
    by (rule ext_count_cut_after) simp
  moreover have "ext_count (CHR ''.'' # (E @ q # Bs @ ''>'' @ R)) =
        1 + ext_count (E @ q # Bs @ ''>'' @ R)"
    using assms unfolding E by simp
  moreover have "ext_count (E @ q # Bs @ ''>'' @ R) = ext_count (E @ [q]) + ext_count Bs + ext_count R"
    using assms(2) by (rule ext_count_tail)
  moreover have "ext_count (E @ [q]) = 0" unfolding E by simp
  ultimately show ?thesis by simp
qed

lemma ext_count_replaced:
  assumes "q \<in> set quotes"
  shows "ext_count (X @ ''.'' @ ''webp'' @ q # Bs @ ''>'' @ R) =
         ext_count X + ext_count Bs + ext_count R"
proof -
  have "ext_count (X @ CHR ''.'' # (''webp'' @ q # Bs @ ''>'' @ R)) =
        ext_count X + ext_count (CHR ''.'' # (''webp'' @ q # Bs @ ''>'' @ R))"
    by (rule ext_count_cut_after) simp
  moreover have "ext_count (CHR ''.'' # (''webp'' @ q # Bs @ ''>'' @ R)) =
        ext_count (''webp'' @ q # Bs @ ''>'' @ R)"
    by (simp add: lower_def)
  moreover have "ext_count (''webp'' @ q # Bs @ ''>'' @ R) =
        ext_count (''webp'' @ [q]) + ext_count Bs + ext_count R"
    using assms by (rule ext_count_tail)
  moreover have "ext_count (''webp'' @ [q]) = 0" by simp
  ultimately show ?thesis by simp
qed

lemma group1_ok_length: "group1_ok g \<Longrightarrow> 4 \<le> length g"
proof -
  assume "group1_ok g"
  then obtain t W A a q where g: "g = t @ W @ A @ a @ [q]" and t: "map lower t = ''<img''"
    unfolding group1_ok_def by (elim exE conjE)
  from t have "length (map lower t) = length ''<img''" by simp
  then have "length t = 4" by simp
  with g show ?thesis by simp
qed

lemma take_new_content: "k \<le> 4 \<Longrightarrow> take k (new_content s) = take k s"
proof (induction s arbitrary: k rule: new_content_induct)
  case (match s m r)
  from img_match_shape[OF match(1)] obtain g1 P E q B where
    sh: "m = [g1, P @ ''.'', E, q # B @ ''>'']" "s = g1 @ P @ ''.'' @ E @ q # B @ ''>'' @ r"
      "group1_ok g1"
    by (elim exE conjE)
  have l: "k \<le> length g1" using group1_ok_length[OF sh(3)] match.prems by simp
  have "new_content s = g1 @ (P @ ''.'') @ ''webp'' @ (q # B @ ''>'') @ new_content r"
    using new_content_match[OF match(1)] unfolding sh(1) replace_ext_groups by simp
  then have "take k (new_content s) = take k g1" using l by simp
  moreover have "take k s = take k g1" using l by (subst sh(2)) simp
  ultimately show ?case by simp
next
  case (no_match x t)
  show ?case
  proof (cases k)
    case 0
    then show ?thesis by simp
  next
    case (Suc j)
    with no_match.prems have "j \<le> 4" by simp
    from no_match.IH[OF this] Suc new_content_no_match[OF no_match(1)] show ?thesis by simp
  qed
next
  case nil
  then show ?case by (simp add: new_content_Nil)
qed

lemma ext_site_take: "ext_site (x # u) = ext_site (x # take 4 u)"
proof -
  have "ext_site (x # a # b # c # d # t) = ext_site [x, a, b, c, d]" for a b c d t
    by simp
  then show ?thesis
    by (cases u; cases "tl u"; cases "tl (tl u)"; cases "tl (tl (tl u))") auto
qed

lemma ext_count_new_content:
  "ext_count (new_content s) \<le> ext_count s \<and>
   (new_content s \<noteq> s \<longrightarrow> ext_count (new_content s) < ext_count s)"
proof (induction s rule: new_content_induct)
  case (match s m r)
  from img_match_shape[OF match(1)] obtain g1 P E q B where
    sh: "m = [g1, P @ ''.'', E, q # B @ ''>'']" "s = g1 @ P @ ''.'' @ E @ q # B @ ''>'' @ r"
      "map lower E = ''jpg'' \<or> map lower E = ''png''" "q \<in> set quotes"
    by (elim exE conjE)
  have n: "new_content s = (g1 @ P) @ ''.'' @ ''webp'' @ q # B @ ''>'' @ new_content r"
    using new_content_match[OF match(1)] unfolding sh(1) replace_ext_groups by simp
  have s: "s = (g1 @ P) @ ''.'' @ E @ q # B @ ''>'' @ r" using sh(2) by simp
  have 1: "ext_count (new_content s) = ext_count (g1 @ P) + ext_count B + ext_count (new_content r)"
    unfolding n using sh(4) by (rule ext_count_replaced)
  have 2: "ext_count s = ext_count (g1 @ P) + 1 + ext_count B + ext_count r"
    by (subst s) (rule ext_count_matched[OF sh(3,4)])
  from 1 2 match.IH show ?case by simp
next
  case (no_match x t)
  have n: "new_content (x # t) = x # new_content t" by (rule new_content_no_match[OF no_match(1)])
  have "ext_site (x # new_content t) = ext_site (x # t)"
    using ext_site_take[of x "new_content t"] ext_site_take[of x t] by (simp add: take_new_content)
  with n no_match.IH show ?case by simp
next
  case nil
  then show ?case by (simp add: new_content_Nil)
qed

lemma ext_count_zero_fixed: "ext_count s = 0 \<Longrightarrow> new_content s = s"
  using ext_count_new_content[of s] by auto

lemma fixpoint_after:
  "ext_count s \<le> n \<Longrightarrow> new_content ((new_content ^^ n) s) = (new_content ^^ n) s"
proof (induction n arbitrary: s)
  case 0
  then show ?case by (simp add: ext_count_zero_fixed)
next
  case (Suc n)
  show ?case
  proof (cases "new_content s = s")
    case True
    then have "(new_content ^^ k) s = s" for k by (induction k) simp_all
    with True show ?thesis by simp
  next
    case False
    then have "ext_count (new_content s) < ext_count s" using ext_count_new_content[of s] by simp
    with Suc.prems have "ext_count (new_content s) \<le> n" by simp
    from Suc.IH[OF this] show ?thesis by (simp add: funpow_swap1)
  qed
qed

text \<open>
  An application that changes the text removes at least one of the places counted by
  \<open>ext_count\<close> and creates none. So the substitution is idempotent on every text with at
  most one such place, and applying it as many times as the text has such places gives
  a text that a further application leaves unchanged.
\<close>

theorem runs_reach_fixed_point:
  "(new_content s \<noteq> s \<longrightarrow> ext_count (new_content s) < ext_count s) \<and>
   (ext_count s \<le> 1 \<longrightarrow> new_content (new_content s) = new_content s) \<and>
   new_content ((new_content ^^ ext_count s) s) = (new_content ^^ ext_count s) s"
proof (intro conjI impI)
  assume "new_content s \<noteq> s"
  then show "ext_count (new_content s) < ext_count s" using ext_count_new_content[of s] by simp
next
  assume "ext_count s \<le> 1"
  from fixpoint_after[OF this] show "new_content (new_content s) = new_content s" by simp
next
  show "new_content ((new_content ^^ ext_count s) s) = (new_content ^^ ext_count s) s"
    by (rule fixpoint_after) simp
qed

theorem runs_reach_fixed_point_witness:
  \<open>ext_count ''<img src="a.jpg" data-src="b.png">'' = 2 \<and>
   new_content ''<img src="a.jpg" data-src="b.png">'' \<noteq> ''<img src="a.jpg" data-src="b.png">'' \<and>
   ext_count (new_content ''<img src="a.jpg" data-src="b.png">'') <
     ext_count ''<img src="a.jpg" data-src="b.png">'' \<and>
   new_content (new_content (new_content ''<img src="a.jpg" data-src="b.png">'')) =
     new_content (new_content ''<img src="a.jpg" data-src="b.png">'') \<and>
   ext_count ''<img src="a.jpg">'' \<le> 1 \<and>
   new_content (new_content ''<img src="a.jpg">'') = new_content ''<img src="a.jpg">''\<close>
proof -
  have c: \<open>ext_count ''<img src="a.jpg" data-src="b.png">'' = 2\<close> by code_simp
  have d: \<open>new_content ''<img src="a.jpg" data-src="b.png">'' \<noteq> ''<img src="a.jpg" data-src="b.png">''\<close>
    by code_simp
  have e: \<open>ext_count ''<img src="a.jpg">'' \<le> 1\<close> by code_simp
  note t1 = runs_reach_fixed_point[of \<open>''<img src="a.jpg" data-src="b.png">''\<close>]
  note t2 = runs_reach_fixed_point[of \<open>''<img src="a.jpg">''\<close>]
  from t1[THEN conjunct1, THEN mp, OF d] have 1: \<open>ext_count (new_content ''<img src="a.jpg" data-src="b.png">'') <
     ext_count ''<img src="a.jpg" data-src="b.png">''\<close> .
  from t1[THEN conjunct2, THEN conjunct2] have 2: \<open>new_content (new_content (new_content ''<img src="a.jpg" data-src="b.png">'')) =
     new_content (new_content ''<img src="a.jpg" data-src="b.png">'')\<close>
    unfolding c by (simp add: numeral_2_eq_2)
  from t2[THEN conjunct2, THEN conjunct1, THEN mp, OF e] have 3: \<open>new_content (new_content ''<img src="a.jpg">'') = new_content ''<img src="a.jpg">''\<close>
    .
  show ?thesis by (intro conjI c d e 1 2 3)
qed

text \<open>
  Claim C2. The substitution is to be idempotent: a second application is to find
  nothing left to rewrite. In the text below the tag holds two quoted \<^verbatim>\<open>src=\<close> values.
  The greedy repetition before \<^verbatim>\<open>src=\<close> takes the last of them, and the match consumes
  the whole tag, so the first application leaves \<^verbatim>\<open>src="a.jpg"\<close> as it is; the second
  application rewrites it, and its result differs from that of the first.
\<close>

theorem second_run_changes_text:
  \<open>new_content ''<img src="a.jpg" data-src="b.png">'' = ''<img src="a.jpg" data-src="b.webp">'' \<and>
   new_content (new_content ''<img src="a.jpg" data-src="b.png">'') =
     ''<img src="a.webp" data-src="b.webp">'' \<and>
   new_content (new_content ''<img src="a.jpg" data-src="b.png">'') \<noteq>
     new_content ''<img src="a.jpg" data-src="b.png">''\<close>
  by code_simp

subsection \<open>A tag with one attribute\<close>

text \<open>
  The match of the pattern on a tag \<^verbatim>\<open><img src="p.e">\<close>, followed through the
  backtracking of the engine, for every path \<open>p\<close> without quotes.
\<close>

lemma ext_letters:
  assumes "map lower e = ''jpg'' \<or> map lower e = ''png''"
  obtains e1 e2 e3 where "e = [e1, e2, e3]"
    "lower e1 \<in> set ''jpgn''" "lower e2 \<in> set ''jpgn''" "lower e3 \<in> set ''jpgn''"
  using assms by (auto simp: map_eq_Cons_conv)

lemma letter_facts:
  assumes "lower x \<in> set ''jpgn''"
  shows "x \<noteq> CHR ''.''" "x \<noteq> CHR ''=''" "x \<notin> set quotes" "x \<noteq> CHR ''>''"
  using assms by (auto simp: quotes_def)

lemma match_tail:
  "sre_match [One (In quotes), Max_Repeat 0 (Not_In ''>''), One (Literal (CHR ''>''))] [CHR 0x22, CHR ''>''] =
     Some ([[CHR 0x22], [], ''>''], [])"
  by (simp add: push_def quotes_def)

lemma match_ext:
  assumes "map lower e = ''jpg'' \<or> map lower e = ''png''"
  shows "sre_match [Branch [map Literal ''jpg'', map Literal ''png''],
           One (In quotes), Max_Repeat 0 (Not_In ''>''), One (Literal (CHR ''>''))]
           (e @ [CHR 0x22, CHR ''>'']) =
         Some ([e, [CHR 0x22], [], ''>''], [])"
proof -
  define T where "T = [One (In quotes), Max_Repeat 0 (Not_In ''>''), One (Literal (CHR ''>''))]"
  have t: "sre_match T [CHR 0x22, CHR ''>''] = Some ([[CHR 0x22], [], ''>''], [])"
    unfolding T_def by (rule match_tail)
  from assms obtain e1 e2 e3 where e: "e = [e1, e2, e3]" by (rule ext_letters)
  have "sre_match (Branch [map Literal ''jpg'', map Literal ''png''] # T) (e @ [CHR 0x22, CHR ''>'']) =
         Some ([e, [CHR 0x22], [], ''>''], [])"
    using assms unfolding e by (auto simp: t push_def)
  then show ?thesis unfolding T_def .
qed

lemma match_dot_fails:
  "x \<noteq> CHR ''.'' \<Longrightarrow> sre_match (One (Literal (CHR ''.'')) # ns) (x # t) = None"
  by simp

lemma match_path:
  assumes "p \<noteq> []" "set p \<inter> set quotes = {}"
    and "map lower e = ''jpg'' \<or> map lower e = ''png''"
  shows "sre_match [Max_Repeat 1 (Not_In quotes), One (Literal (CHR ''.'')),
           Branch [map Literal ''jpg'', map Literal ''png''],
           One (In quotes), Max_Repeat 0 (Not_In ''>''), One (Literal (CHR ''>''))]
           (p @ ''.'' @ e @ [CHR 0x22, CHR ''>'']) =
         Some ([p, ''.'', e, [CHR 0x22], [], ''>''], [])"
proof -
  define T where "T = [Branch [map Literal ''jpg'', map Literal ''png''],
           One (In quotes), Max_Repeat 0 (Not_In ''>''), One (Literal (CHR ''>''))]"
  define D where "D = One (Literal (CHR ''.'')) # T"
  have t: "sre_match T (e @ [CHR 0x22, CHR ''>'']) = Some ([e, [CHR 0x22], [], ''>''], [])"
    unfolding T_def using assms(3) by (rule match_ext)
  from assms(3) obtain e1 e2 e3 where e: "e = [e1, e2, e3]"
    and l: "lower e1 \<in> set ''jpgn''" "lower e2 \<in> set ''jpgn''" "lower e3 \<in> set ''jpgn''"
    by (rule ext_letters)
  note f1 = letter_facts[OF l(1)] and f2 = letter_facts[OF l(2)] and f3 = letter_facts[OF l(3)]
  define s2 where "s2 = p @ ''.'' @ e @ [CHR 0x22, CHR ''>'']"
  have nq: "x \<notin> set quotes" if "x \<in> set p" for x using assms(2) that by blast
  have dotq: "CHR ''.'' \<notin> set quotes" by (simp add: quotes_def)
  have aq: "accepts (Not_In quotes) x" if "x \<in> set (p @ ''.'' @ e)" for x
    using that unfolding e using nq dotq f1(3) f2(3) f3(3) by auto
  have "takeWhile (accepts (Not_In quotes)) ((p @ ''.'' @ e) @ [CHR 0x22, CHR ''>'']) =
      (p @ ''.'' @ e) @ takeWhile (accepts (Not_In quotes)) [CHR 0x22, CHR ''>'']"
    by (rule takeWhile_append2) (rule aq)
  moreover have "takeWhile (accepts (Not_In quotes)) [CHR 0x22, CHR ''>''] = []"
    by (simp add: quotes_def)
  ultimately have tw0: "takeWhile (accepts (Not_In quotes)) ((p @ ''.'' @ e) @ [CHR 0x22, CHR ''>'']) =
      p @ ''.'' @ e" by simp
  have s2': "s2 = (p @ ''.'' @ e) @ [CHR 0x22, CHR ''>'']" unfolding s2_def by simp
  have "length (takeWhile (accepts (Not_In quotes)) s2) = length (p @ ''.'' @ e)"
    by (simp only: s2' tw0)
  then have tw: "length (takeWhile (accepts (Not_In quotes)) s2) = length p + 4"
    by (simp add: e)
  define f where "f = (\<lambda>n. push (take n s2) (sre_match D (drop n s2)))"
  have fk: "f (length p) = Some ([p, ''.'', e, [CHR 0x22], [], ''>''], [])"
    unfolding f_def s2_def D_def by (simp add: t push_def)
  have fj: "f j = None" if "length p < j" "j \<le> length p + 4" for j
  proof -
    define i where "i = j - length p"
    have j: "j = length p + i" and i: "i = 1 \<or> i = 2 \<or> i = 3 \<or> i = 4"
      using that unfolding i_def by arith+
    have d: "drop j s2 = drop i (CHR ''.'' # e1 # e2 # e3 # [CHR 0x22, CHR ''>''])"
      unfolding j s2_def e by simp
    from i have "sre_match D (drop j s2) = None"
      unfolding d D_def using f1 f2 f3 by (elim disjE) (simp_all add: match_dot_fails)
    then show ?thesis unfolding f_def by (simp add: push_def)
  qed
  have "first_down f 1 (length p + 4) = Some ([p, ''.'', e, [CHR 0x22], [], ''>''], [])"
  proof (rule first_down_eqI[where k = "length p"])
    show "1 \<le> length p" using assms(1) by (cases p) auto
    show "length p \<le> length p + 4" by simp
    show "f (length p) = Some ([p, ''.'', e, [CHR 0x22], [], ''>''], [])" by (rule fk)
    show "\<And>j. length p < j \<Longrightarrow> j \<le> length p + 4 \<Longrightarrow> f j = None" by (rule fj)
  qed
  then have "sre_match (Max_Repeat 1 (Not_In quotes) # D) s2 =
      Some ([p, ''.'', e, [CHR 0x22], [], ''>''], [])"
    unfolding f_def by (simp add: tw)
  then show ?thesis unfolding D_def T_def s2_def .
qed

text \<open>
  A text at whose fourth and fifth places \<^verbatim>\<open>=\<close> and a quote stand: only such a text can
  start with \<^verbatim>\<open>src=\<close> and a quote.
\<close>

fun eq_quote :: "string \<Rightarrow> bool" where
  "eq_quote (a # b # c # d # q # t) = (d = CHR ''='' \<and> q \<in> set quotes)"
| "eq_quote u = False"

lemma eq_quote_nth:
  "eq_quote u \<longleftrightarrow> 4 < length u \<and> u ! 3 = CHR ''='' \<and> u ! 4 \<in> set quotes"
  by (cases u rule: eq_quote.cases) auto

lemma src_fails:
  "\<not> eq_quote u \<Longrightarrow>
   sre_match (One (Literal (CHR ''s'')) # One (Literal (CHR ''r'')) # One (Literal (CHR ''c'')) #
     One (Literal (CHR ''='')) # One (In quotes) # ns) u = None"
  by (cases u rule: eq_quote.cases) (auto simp: push_def)

lemma less_5: "i < 5 \<longleftrightarrow> i = 0 \<or> i = 1 \<or> i = 2 \<or> i = 3 \<or> i = (4::nat)"
  by arith

lemma less_6: "i < 6 \<longleftrightarrow> i = 0 \<or> i = 1 \<or> i = 2 \<or> i = 3 \<or> i = 4 \<or> i = (5::nat)"
  by arith

lemma quote_positions:
  assumes p: "set p \<inter> set quotes = {}"
    and e: "e1 \<notin> set quotes" "e2 \<notin> set quotes" "e3 \<notin> set quotes"
    and i: "i < length (''src='' @ [CHR 0x22] @ p @ [CHR ''.'', e1, e2, e3, CHR 0x22, CHR ''>''])"
    and q: "(''src='' @ [CHR 0x22] @ p @ [CHR ''.'', e1, e2, e3, CHR 0x22, CHR ''>'']) ! i \<in> set quotes"
  shows "i = 4 \<or> i = length p + 9"
proof -
  define X where "X = ''src='' @ [CHR 0x22]"
  define T where "T = [CHR ''.'', e1, e2, e3, CHR 0x22, CHR ''>'']"
  have lx: "length X = 5" and lt: "length T = 6" by (simp_all add: X_def T_def)
  have R: "''src='' @ [CHR 0x22] @ p @ [CHR ''.'', e1, e2, e3, CHR 0x22, CHR ''>''] = X @ p @ T"
    by (simp add: X_def T_def)
  from i have il: "i < 5 + length p + 6" by simp
  from q have q': "(X @ p @ T) ! i \<in> set quotes" unfolding R .
  consider "i < 5" | "5 \<le> i" "i - 5 < length p" | "5 + length p \<le> i"
    by linarith
  then show ?thesis
  proof cases
    case 1
    then have "(X @ p @ T) ! i = X ! i" by (simp add: nth_append lx)
    with q' have "X ! i \<in> set quotes" by simp
    with 1 show ?thesis unfolding X_def less_5 by (auto simp: quotes_def)
  next
    case 2
    then have "(X @ p @ T) ! i = p ! (i - 5)" by (simp add: nth_append lx)
    moreover have "p ! (i - 5) \<in> set p" using 2(2) by simp
    ultimately show ?thesis using q' p by auto
  next
    case 3
    define m where "m = i - 5 - length p"
    have m: "m < 6" "i = length p + 5 + m" using 3 il unfolding m_def by simp_all
    have n1: "\<not> i < length X" and n2: "\<not> i - length X < length p"
      using 3 lx by simp_all
    have "(X @ p @ T) ! i = (p @ T) ! (i - length X)" using n1 by (simp only: nth_append if_False)
    also have "\<dots> = T ! (i - length X - length p)" using n2 by (simp only: nth_append if_False)
    finally have "(X @ p @ T) ! i = T ! m" unfolding m_def lx .
    with q' have "T ! m \<in> set quotes" by simp
    with m(1) have "m = 4" unfolding T_def less_6 using e by (auto simp: quotes_def)
    with m(2) show ?thesis by simp
  qed
qed

lemma no_second_src:
  assumes p: "set p \<inter> set quotes = {}"
    and e: "lower e1 \<in> set ''jpgn''" "lower e2 \<in> set ''jpgn''" "lower e3 \<in> set ''jpgn''"
    and k: "0 < k"
  shows "\<not> eq_quote (drop k (''src='' @ [CHR 0x22] @ p @ [CHR ''.'', e1, e2, e3, CHR 0x22, CHR ''>'']))"
proof
  define R where "R = ''src='' @ [CHR 0x22] @ p @ [CHR ''.'', e1, e2, e3, CHR 0x22, CHR ''>'']"
  note f1 = letter_facts[OF e(1)] and f2 = letter_facts[OF e(2)] and f3 = letter_facts[OF e(3)]
  assume "eq_quote (drop k (''src='' @ [CHR 0x22] @ p @ [CHR ''.'', e1, e2, e3, CHR 0x22, CHR ''>'']))"
  then have "eq_quote (drop k R)" unfolding R_def .
  then have l: "k + 4 < length R" and a: "R ! (k + 3) = CHR ''=''" and b: "R ! (k + 4) \<in> set quotes"
    unfolding eq_quote_nth by (auto simp: add.commute)
  from quote_positions[OF p f1(3) f2(3) f3(3) l[unfolded R_def] b[unfolded R_def]] k
  have kk: "k = length p + 5" by auto
  have "R ! (length p + 8) = e3" unfolding R_def by (simp add: nth_append)
  with a kk have "e3 = CHR ''=''" by (simp add: numeral_eq_Suc)
  with f3(2) show False by simp
qed

lemma match_attributes:
  assumes "p \<noteq> []" "set p \<inter> set quotes = {}"
    and "map lower e = ''jpg'' \<or> map lower e = ''png''"
  shows "sre_match [Max_Repeat 0 (Not_In ''>''),
           One (Literal (CHR ''s'')), One (Literal (CHR ''r'')), One (Literal (CHR ''c'')),
           One (Literal (CHR ''='')), One (In quotes),
           Max_Repeat 1 (Not_In quotes), One (Literal (CHR ''.'')),
           Branch [map Literal ''jpg'', map Literal ''png''],
           One (In quotes), Max_Repeat 0 (Not_In ''>''), One (Literal (CHR ''>''))]
           (''src='' @ [CHR 0x22] @ p @ ''.'' @ e @ [CHR 0x22, CHR ''>'']) =
         Some ([[], ''s'', ''r'', ''c'', ''='', [CHR 0x22], p, ''.'', e, [CHR 0x22], [], ''>''], [])"
proof -
  define T2 where "T2 = [Max_Repeat 1 (Not_In quotes), One (Literal (CHR ''.'')),
           Branch [map Literal ''jpg'', map Literal ''png''],
           One (In quotes), Max_Repeat 0 (Not_In ''>''), One (Literal (CHR ''>''))]"
  define T1 where "T1 = One (Literal (CHR ''s'')) # One (Literal (CHR ''r'')) #
           One (Literal (CHR ''c'')) # One (Literal (CHR ''='')) # One (In quotes) # T2"
  define R where "R = ''src='' @ [CHR 0x22] @ p @ ''.'' @ e @ [CHR 0x22, CHR ''>'']"
  from assms(3) obtain e1 e2 e3 where e: "e = [e1, e2, e3]"
    and l: "lower e1 \<in> set ''jpgn''" "lower e2 \<in> set ''jpgn''" "lower e3 \<in> set ''jpgn''"
    by (rule ext_letters)
  have t2: "sre_match T2 (p @ ''.'' @ e @ [CHR 0x22, CHR ''>'']) =
      Some ([p, ''.'', e, [CHR 0x22], [], ''>''], [])"
    unfolding T2_def using assms by (rule match_path)
  have t1: "sre_match T1 R =
      Some ([''s'', ''r'', ''c'', ''='', [CHR 0x22], p, ''.'', e, [CHR 0x22], [], ''>''], [])"
    unfolding T1_def R_def by (simp add: t2[simplified] push_def quotes_def)
  define f where "f = (\<lambda>n. push (take n R) (sre_match T1 (drop n R)))"
  have f0: "f 0 = Some ([[], ''s'', ''r'', ''c'', ''='', [CHR 0x22], p, ''.'', e, [CHR 0x22], [], ''>''], [])"
    unfolding f_def by (simp add: t1 push_def)
  have fj: "f j = None" if "0 < j" for j
  proof -
    have "\<not> eq_quote (drop j R)"
      unfolding R_def e using no_second_src[OF assms(2) l that] by simp
    then have "sre_match T1 (drop j R) = None" unfolding T1_def by (rule src_fails)
    then show ?thesis unfolding f_def by (simp add: push_def)
  qed
  have "first_down f 0 (length (takeWhile (accepts (Not_In ''>'')) R)) =
      Some ([[], ''s'', ''r'', ''c'', ''='', [CHR 0x22], p, ''.'', e, [CHR 0x22], [], ''>''], [])"
  proof (rule first_down_eqI[where k = 0])
    show "(0::nat) \<le> 0" by simp
    show "0 \<le> length (takeWhile (accepts (Not_In ''>'')) R)" by simp
    show "f 0 = Some ([[], ''s'', ''r'', ''c'', ''='', [CHR 0x22], p, ''.'', e, [CHR 0x22], [], ''>''], [])"
      by (rule f0)
    show "\<And>j. 0 < j \<Longrightarrow> j \<le> length (takeWhile (accepts (Not_In ''>'')) R) \<Longrightarrow> f j = None"
      by (rule fj)
  qed
  then have "sre_match (Max_Repeat 0 (Not_In ''>'') # T1) R =
      Some ([[], ''s'', ''r'', ''c'', ''='', [CHR 0x22], p, ''.'', e, [CHR 0x22], [], ''>''], [])"
    unfolding f_def by simp
  then show ?thesis unfolding T1_def T2_def R_def .
qed

lemma simple_tag_match:
  assumes "p \<noteq> []" "set p \<inter> set quotes = {}"
    and "map lower e = ''jpg'' \<or> map lower e = ''png''"
  shows "pattern_match img_tag_pattern
           (''<img src='' @ [CHR 0x22] @ p @ ''.'' @ e @ [CHR 0x22, CHR ''>'']) =
         Some ([''<img src='' @ [CHR 0x22], p @ ''.'', e, [CHR 0x22, CHR ''>'']], [])"
proof -
  define T0 where "T0 = [Max_Repeat 0 (Not_In ''>''),
           One (Literal (CHR ''s'')), One (Literal (CHR ''r'')), One (Literal (CHR ''c'')),
           One (Literal (CHR ''='')), One (In quotes),
           Max_Repeat 1 (Not_In quotes), One (Literal (CHR ''.'')),
           Branch [map Literal ''jpg'', map Literal ''png''],
           One (In quotes), Max_Repeat 0 (Not_In ''>''), One (Literal (CHR ''>''))]"
  define R where "R = ''src='' @ [CHR 0x22] @ p @ ''.'' @ e @ [CHR 0x22, CHR ''>'']"
  have t0: "sre_match T0 R =
      Some ([[], ''s'', ''r'', ''c'', ''='', [CHR 0x22], p, ''.'', e, [CHR 0x22], [], ''>''], [])"
    unfolding T0_def R_def using assms by (rule match_attributes)
  have r: "\<exists>t. R = CHR ''s'' # t" unfolding R_def by simp
  then obtain t where rt: "R = CHR ''s'' # t" ..
  have ws: "sre_match (Max_Repeat 1 (In whitespace) # T0) (CHR '' '' # R) =
      Some (['' '', [], ''s'', ''r'', ''c'', ''='', [CHR 0x22], p, ''.'', e, [CHR 0x22], [], ''>''], [])"
  proof -
    have "length (takeWhile (accepts (In whitespace)) (CHR '' '' # R)) = Suc 0"
      unfolding rt by (simp add: whitespace_def lower_def)
    then show ?thesis by (simp add: t0 push_def)
  qed
  have "sre_match (One (Literal (CHR ''<'')) # One (Literal (CHR ''i'')) #
          One (Literal (CHR ''m'')) # One (Literal (CHR ''g'')) #
          Max_Repeat 1 (In whitespace) # T0) (''<img'' @ CHR '' '' # R) =
      Some ([''<'', ''i'', ''m'', ''g'', '' '', [], ''s'', ''r'', ''c'', ''='', [CHR 0x22], p, ''.'', e,
             [CHR 0x22], [], ''>''], [])"
    by (simp add: ws[unfolded One_nat_def] push_def del: sre_match.simps(3))
  then have m: "sre_match (concat img_tag_pattern) (''<img'' @ CHR '' '' # R) =
      Some ([''<'', ''i'', ''m'', ''g'', '' '', [], ''s'', ''r'', ''c'', ''='', [CHR 0x22], p, ''.'', e,
             [CHR 0x22], [], ''>''], [])"
    unfolding img_tag_nodes T0_def .
  have g: "split_groups img_tag_pattern
      [''<'', ''i'', ''m'', ''g'', '' '', [], ''s'', ''r'', ''c'', ''='', [CHR 0x22], p, ''.'', e,
       [CHR 0x22], [], ''>''] =
      [''<img src='' @ [CHR 0x22], p @ ''.'', e, [CHR 0x22, CHR ''>'']]"
    by (simp add: img_tag_pattern_def lit_def)
  have "''<img src='' @ [CHR 0x22] @ p @ ''.'' @ e @ [CHR 0x22, CHR ''>''] = ''<img'' @ CHR '' '' # R"
    unfolding R_def by simp
  then show ?thesis unfolding pattern_match_def by (simp only: m g option.case prod.case)
qed

lemma simple_tag_rewritten:
  assumes "p \<noteq> []" "set p \<inter> set quotes = {}"
    and "map lower e = ''jpg'' \<or> map lower e = ''png''"
  shows "new_content (''<img src='' @ [CHR 0x22] @ p @ ''.'' @ e @ [CHR 0x22, CHR ''>'']) =
         ''<img src='' @ [CHR 0x22] @ p @ ''.webp'' @ [CHR 0x22, CHR ''>'']"
  using new_content_match[OF simple_tag_match[OF assms]]
  by (simp add: replace_ext_groups new_content_Nil)

text \<open>
  Claim C8. No check of a scheme is made. Whenever the pattern matches, the replacement
  is group 1, group 2, \<^verbatim>\<open>webp\<close> and group 4, whatever group 2 is. A tag
  \<^verbatim>\<open><img src="http://v.e">\<close>, for every text \<open>v\<close> without quotes and every casing \<open>e\<close> of
  \<^verbatim>\<open>jpg\<close> or \<^verbatim>\<open>png\<close>, matches with the path \<^verbatim>\<open>http://v.\<close> as group 2 and becomes
  \<^verbatim>\<open><img src="http://v.webp">\<close>, exactly as the tag with the local path \<open>v\<close> becomes
  \<^verbatim>\<open><img src="v.webp">\<close>.
\<close>

theorem remote_paths_rewritten:
  assumes "set v \<inter> set quotes = {}" and "map lower e = ''jpg'' \<or> map lower e = ''png''"
  shows \<open>(pattern_match img_tag_pattern s = Some ([g1, g2, g3, g4], r) \<longrightarrow>
            new_content s = g1 @ g2 @ ''webp'' @ g4 @ new_content r) \<and>
         pattern_match img_tag_pattern (''<img src="http://'' @ v @ ''.'' @ e @ ''">'') =
           Some ([''<img src="'', ''http://'' @ v @ ''.'', e, ''">''], []) \<and>
         new_content (''<img src="http://'' @ v @ ''.'' @ e @ ''">'') =
           ''<img src="http://'' @ v @ ''.webp">'' \<and>
         (v \<noteq> [] \<longrightarrow>
            new_content (''<img src="'' @ v @ ''.'' @ e @ ''">'') = ''<img src="'' @ v @ ''.webp">'')\<close>
proof (intro conjI impI)
  assume m: "pattern_match img_tag_pattern s = Some ([g1, g2, g3, g4], r)"
  show "new_content s = g1 @ g2 @ ''webp'' @ g4 @ new_content r"
    using new_content_match[OF m] by (simp add: replace_ext_groups)
next
  have q: "set (''http://'' @ v) \<inter> set quotes = {}"
    using assms(1) by (auto simp: quotes_def)
  have n: "''http://'' @ v \<noteq> []" by simp
  show \<open>pattern_match img_tag_pattern (''<img src="http://'' @ v @ ''.'' @ e @ ''">'') =
           Some ([''<img src="'', ''http://'' @ v @ ''.'', e, ''">''], [])\<close>
    using simple_tag_match[OF n q assms(2)] by simp
  show \<open>new_content (''<img src="http://'' @ v @ ''.'' @ e @ ''">'') =
           ''<img src="http://'' @ v @ ''.webp">''\<close>
    using simple_tag_rewritten[OF n q assms(2)] by simp
next
  assume "v \<noteq> []"
  from simple_tag_rewritten[OF this assms]
  show \<open>new_content (''<img src="'' @ v @ ''.'' @ e @ ''">'') = ''<img src="'' @ v @ ''.webp">''\<close>
    by simp
qed

theorem remote_paths_rewritten_witness:
  \<open>set ''example.com/a'' \<inter> set quotes = {} \<and> map lower ''JPG'' = ''jpg'' \<and>
   pattern_match img_tag_pattern ''<img src="http://example.com/a.JPG">'' =
     Some ([''<img src="'', ''http://example.com/a.'', ''JPG'', ''">''], []) \<and>
   new_content ''<img src="http://example.com/a.JPG">'' =
     ''<img src="'' @ ''http://example.com/a.'' @ ''webp'' @ ''">'' @ new_content [] \<and>
   new_content ''<img src="http://example.com/a.JPG">'' = ''<img src="http://example.com/a.webp">'' \<and>
   new_content ''<img src="example.com/a.JPG">'' = ''<img src="example.com/a.webp">''\<close>
proof -
  have h1: "set ''example.com/a'' \<inter> set quotes = {}" by code_simp
  have h2: "map lower ''JPG'' = ''jpg''" by code_simp
  then have h2': "map lower ''JPG'' = ''jpg'' \<or> map lower ''JPG'' = ''png''" ..
  have n: "''example.com/a'' \<noteq> []" by simp
  note t = remote_paths_rewritten[OF h1 h2', of \<open>''<img src="http://example.com/a.JPG">''\<close>
      \<open>''<img src="''\<close> "''http://example.com/a.''" "''JPG''" \<open>''">''\<close> "[]"]
  from t[THEN conjunct2, THEN conjunct1]
  have a: \<open>pattern_match img_tag_pattern ''<img src="http://example.com/a.JPG">'' =
     Some ([''<img src="'', ''http://example.com/a.'', ''JPG'', ''">''], [])\<close> by simp
  from t[THEN conjunct2, THEN conjunct2, THEN conjunct1]
  have b: \<open>new_content ''<img src="http://example.com/a.JPG">'' = ''<img src="http://example.com/a.webp">''\<close>
    by simp
  from t[THEN conjunct2, THEN conjunct2, THEN conjunct2, THEN mp, OF n]
  have c: \<open>new_content ''<img src="example.com/a.JPG">'' = ''<img src="example.com/a.webp">''\<close>
    by simp
  from t[THEN conjunct1, THEN mp, OF a]
  have d: \<open>new_content ''<img src="http://example.com/a.JPG">'' =
     ''<img src="'' @ ''http://example.com/a.'' @ ''webp'' @ ''">'' @ new_content []\<close> .
  show ?thesis by (intro conjI h1 h2 a d b c)
qed

section \<open>Claims about single inputs\<close>

text \<open>
  Claim C9. The pattern accepts any attribute whose name ends in \<^verbatim>\<open>src=\<close>: the tag
  \<^verbatim>\<open><img data-src="x.jpg">\<close>, which has no \<^verbatim>\<open>src\<close> attribute, is rewritten to
  \<^verbatim>\<open><img data-src="x.webp">\<close>, the text \<^verbatim>\<open>data-\<close> being consumed by the unconstrained
  repetition before \<^verbatim>\<open>src=\<close>.
\<close>

theorem data_src_is_rewritten:
  \<open>new_content ''<img data-src="x.jpg">'' = ''<img data-src="x.webp">'' \<and>
   pattern_match img_tag_pattern ''<img data-src="x.jpg">'' =
     Some ([''<img data-src="'', ''x.'', ''jpg'', ''">''], [])\<close>
  by code_simp

text \<open>
  Claim C10. The closing quote need not be the opening quote: \<^verbatim>\<open><img src="pic.jpg'>\<close>
  matches, each quote position accepting either quote, and is rewritten to
  \<^verbatim>\<open><img src="pic.webp'>\<close> with both quote characters as they were.
\<close>

theorem mismatched_quotes_are_rewritten:
  \<open>new_content (''<img src="pic.jpg'' @ [CHR 0x27] @ ''>'') =
     ''<img src="pic.webp'' @ [CHR 0x27] @ ''>'' \<and>
   pattern_match img_tag_pattern (''<img src="pic.jpg'' @ [CHR 0x27] @ ''>'') =
     Some ([''<img src="'', ''pic.'', ''jpg'', [CHR 0x27, CHR ''>'']], [])\<close>
  by code_simp

text \<open>
  Claim C4. Only \<^verbatim>\<open><img>\<close> tags are to be affected: a text whose \<^verbatim>\<open>.png\<close> and \<^verbatim>\<open>.jpg\<close>
  references all stand outside \<^verbatim>\<open><img ...>\<close> tags is to stay as it is. The second group of
  the pattern excludes the quotes but not \<^verbatim>\<open>>\<close>, so a match can run past the end of the
  \<^verbatim>\<open><img>\<close> tag: in the text below the tag ends at the first \<^verbatim>\<open>>\<close> and the reference of the
  \<^verbatim>\<open><link>\<close> element after it is rewritten.
\<close>

theorem reference_after_img_tag_rewritten:
  \<open>new_content ''<img alt=src='><link rel=icon href=favicon.png'>'' =
     ''<img alt=src='><link rel=icon href=favicon.webp'>'' \<and>
   pattern_match img_tag_pattern ''<img alt=src='><link rel=icon href=favicon.png'>'' =
     Some ([''<img alt=src='' @ [CHR 0x27], ''><link rel=icon href=favicon.'', ''png'',
            [CHR 0x27, CHR ''>'']], [])\<close>
  by code_simp

end
